theory Spec2Isabelle
  imports Complex_Main "HOL-Library.Signed_Division"
begin

section \<open>Tile geometry\<close>

text \<open>
  The compile-time constants of \<^verbatim>\<open>fwd_attend_ker_tile_dims<D>\<close>. The primary template is
  an empty struct, so a head dimension without a specialisation has no geometry.
\<close>

record tile_dims =
  tile_width :: int
  qo_height :: int
  kv_height :: int
  stages :: int

definition fwd_attend_ker_tile_dims :: "int \<Rightarrow> tile_dims option" where
  "fwd_attend_ker_tile_dims D =
     (if D = 64 then
        Some \<lparr>tile_width = 64, qo_height = 4 * 16, kv_height = 8 * 16, stages = 2\<rparr>
      else if D = 128 then
        Some \<lparr>tile_width = 128, qo_height = 4 * 16, kv_height = 8 * 16, stages = 2\<rparr>
      else if D = 256 then
        Some \<lparr>tile_width = 256, qo_height = 4 * 16, kv_height = 4 * 16, stages = 2\<rparr>
      else None)"

text \<open>Constants of the kittens library that the kernel and the launcher use.\<close>

definition WARPGROUP_WARPS :: int where
  "WARPGROUP_WARPS = 4"

definition WARP_THREADS :: int where
  "WARP_THREADS = 32"

definition TILE_ROW_DIM :: int where
  "TILE_ROW_DIM = 16"

section \<open>The host launcher \<^verbatim>\<open>attention_forward\<close>\<close>

datatype device = CPU | CUDA int

datatype scalar_type = kFloat32 | kFloat16 | kBFloat16 | kFloat8_e4m3fn

record tensor =
  t_device :: device
  t_sizes :: "int list"
  t_dtype :: scalar_type

definition is_cuda :: "tensor \<Rightarrow> bool" where
  "is_cuda t = (case t_device t of CPU \<Rightarrow> False | CUDA _ \<Rightarrow> True)"

definition dim :: "tensor \<Rightarrow> int" where
  "dim t = int (length (t_sizes t))"

definition size_at :: "tensor \<Rightarrow> nat \<Rightarrow> int" where
  "size_at t i = t_sizes t ! i"

datatype host_error =
    TorchCheck string
  | DivisionByZero
  | CudaError

text \<open>One kernel launch: the template arguments, the grid and the fields of \<^verbatim>\<open>fwd_globals\<close>.\<close>

record launch =
  k_D :: int
  k_is_causal :: bool
  k_CONSUMER_WARPGROUPS :: int
  k_PRODUCER_WARPGROUPS :: int
  k_grid :: "int \<times> int \<times> int"
  k_threads :: int
  g_N :: int
  g_hr :: int

text \<open>
  What a successful call returns: the output tensor's shape, and the kernels that were
  launched on it. The output is allocated with \<^verbatim>\<open>torch::empty\<close>, so it holds defined
  values only where a launched kernel stored them.
\<close>

record forward_result =
  o_sizes :: "int list"
  launches :: "launch list"

definition launch_for ::
  "int \<Rightarrow> int \<Rightarrow> int \<Rightarrow> bool \<Rightarrow> int \<Rightarrow> int \<Rightarrow> int \<Rightarrow> int \<Rightarrow> int \<Rightarrow> launch" where
  "launch_for D CW PW is_causal seq_len_q seq_len_kv qo_heads batch hr =
     (let NUM_WARPGROUPS = CW + PW;
          NUM_WORKERS = NUM_WARPGROUPS * WARPGROUP_WARPS;
          block_size_m =
            CW * (case fwd_attend_ker_tile_dims D of Some K \<Rightarrow> qo_height K | None \<Rightarrow> 0);
          num_m_blocks = (seq_len_q + block_size_m - 1) sdiv block_size_m
      in \<lparr>k_D = D, k_is_causal = is_causal, k_CONSUMER_WARPGROUPS = CW,
          k_PRODUCER_WARPGROUPS = PW, k_grid = (num_m_blocks, qo_heads, batch),
          k_threads = 32 * NUM_WORKERS, g_N = seq_len_kv, g_hr = hr\<rparr>)"

text \<open>
  The three \<^verbatim>\<open>if (head_dim == ...)\<close> blocks of the launcher, in order. There is no
  \<^verbatim>\<open>else\<close>: a head dimension that matches none of them launches nothing.
\<close>

definition dispatch ::
  "int \<Rightarrow> bool \<Rightarrow> int \<Rightarrow> int \<Rightarrow> int \<Rightarrow> int \<Rightarrow> int \<Rightarrow> launch list" where
  "dispatch head_dim is_causal seq_len_q seq_len_kv qo_heads batch hr =
     (if head_dim = 64
      then [launch_for 64 3 1 is_causal seq_len_q seq_len_kv qo_heads batch hr] else []) @
     (if head_dim = 128
      then [launch_for 128 3 1 is_causal seq_len_q seq_len_kv qo_heads batch hr] else []) @
     (if head_dim = 256
      then [launch_for 256 2 1 is_causal seq_len_q seq_len_kv qo_heads batch hr] else [])"

text \<open>
  The launcher's checks, in the order of the source. The checks that compare a size with
  the variable just read from it (\<^verbatim>\<open>q.size(0) == batch\<close> and the like) cannot fail and
  are left out. \<^verbatim>\<open>qo_heads % kv_heads\<close> with \<open>kv_heads = 0\<close> is a division by zero.

  The CUDA runtime is outside the source: \<open>attr_ok\<close> says whether
  \<^verbatim>\<open>cudaFuncSetAttribute\<close> succeeds for a launch, \<open>launch_ok\<close> whether the launch itself
  leaves no error for \<^verbatim>\<open>C10_CUDA_KERNEL_LAUNCH_CHECK\<close>.
\<close>

record cuda_runtime =
  attr_ok :: "launch \<Rightarrow> bool"
  launch_ok :: "launch \<Rightarrow> bool"

definition scale_checks :: "tensor \<Rightarrow> tensor \<Rightarrow> int \<Rightarrow> int \<Rightarrow> int \<Rightarrow> host_error option" where
  "scale_checks scale_q scale_k batch qo_heads kv_heads =
     (if t_dtype scale_q \<noteq> kFloat32 then
        Some (TorchCheck ''Q scale tensor must be of type float32'')
      else if t_dtype scale_k \<noteq> kFloat32 then
        Some (TorchCheck ''K scale tensor must be of type float32'')
      else if dim scale_q \<noteq> 2 then
        Some (TorchCheck ''Q scale tensor must have 2 dimensions'')
      else if dim scale_k \<noteq> 2 then
        Some (TorchCheck ''K scale tensor must have 2 dimensions'')
      else if size_at scale_q 0 \<noteq> batch then
        Some (TorchCheck ''Q scale batch dimension - idx 0 - must match for all inputs'')
      else if size_at scale_k 0 \<noteq> batch then
        Some (TorchCheck ''K scale batch dimension - idx 0 - must match for all inputs'')
      else if size_at scale_q 1 \<noteq> qo_heads then
        Some (TorchCheck ''Q scale head dimension - idx 1 - must match for all inputs'')
      else if size_at scale_k 1 \<noteq> kv_heads then
        Some (TorchCheck ''K scale head dimension - idx 1 - must match for all inputs'')
      else None)"

definition attention_forward ::
  "cuda_runtime \<Rightarrow> bool \<Rightarrow> tensor \<Rightarrow> tensor \<Rightarrow> tensor \<Rightarrow> tensor \<Rightarrow> tensor \<Rightarrow> bool
     \<Rightarrow> host_error + forward_result" where
  "attention_forward rt is_fp8 q k v scale_q scale_k causal =
     (if \<not> is_cuda q then Inl (TorchCheck ''Tensor must be on CUDA device'')
      else if \<not> is_cuda k then Inl (TorchCheck ''Tensor must be on CUDA device'')
      else if \<not> is_cuda v then Inl (TorchCheck ''Tensor must be on CUDA device'')
      else if is_fp8 \<and> \<not> is_cuda scale_q then
        Inl (TorchCheck ''Tensor must be on CUDA device'')
      else if is_fp8 \<and> \<not> is_cuda scale_k then
        Inl (TorchCheck ''Tensor must be on CUDA device'')
      else if t_device q \<noteq> t_device k then
        Inl (TorchCheck ''Q and K tensors must be on the same device'')
      else if t_device q \<noteq> t_device v then
        Inl (TorchCheck ''Q and V tensors must be on the same device'')
      else if dim q \<noteq> 4 then Inl (TorchCheck ''Q tensor must have 4 dimensions'')
      else if dim k \<noteq> 4 then Inl (TorchCheck ''K tensor must have 4 dimensions'')
      else if dim v \<noteq> 4 then Inl (TorchCheck ''V tensor must have 4 dimensions'')
      else
        let batch = size_at q 0;
            seq_len_q = size_at q 2;
            seq_len_kv = size_at k 2;
            head_dim = size_at q 3;
            qo_heads = size_at q 1;
            kv_heads = size_at k 1
        in
        if size_at k 0 \<noteq> batch then
          Inl (TorchCheck ''K batch dimension - idx 0 - must match for all inputs'')
        else if size_at v 0 \<noteq> batch then
          Inl (TorchCheck ''V batch dimension - idx 0 - must match for all inputs'')
        else if size_at v 2 \<noteq> seq_len_kv then
          Inl (TorchCheck ''V sequence length dimension - idx 2 - must match for all inputs'')
        else if size_at k 3 \<noteq> head_dim then
          Inl (TorchCheck ''K head dimension - idx 3 - must match for all non-vector inputs'')
        else if size_at v 3 \<noteq> head_dim then
          Inl (TorchCheck ''V head dimension - idx 3 - must match for all non-vector inputs'')
        else if \<not> (qo_heads \<ge> kv_heads) then
          Inl (TorchCheck ''QO heads must be greater than or equal to KV heads'')
        else if kv_heads = 0 then Inl DivisionByZero
        else if qo_heads smod kv_heads \<noteq> 0 then
          Inl (TorchCheck ''QO heads must be divisible by KV heads'')
        else if size_at v 1 \<noteq> kv_heads then
          Inl (TorchCheck ''KV head dimension - idx 1 - must match for all inputs'')
        else
          case (if is_fp8 then scale_checks scale_q scale_k batch qo_heads kv_heads else None) of
            Some e \<Rightarrow> Inl e
          | None \<Rightarrow>
              let hr = qo_heads sdiv kv_heads;
                  ls = dispatch head_dim causal seq_len_q seq_len_kv qo_heads batch hr
              in
              if \<not> list_all (attr_ok rt) ls then Inl CudaError
              else if \<not> list_all (launch_ok rt) ls then Inl CudaError
              else Inr \<lparr>o_sizes = [batch, qo_heads, seq_len_q, head_dim], launches = ls\<rparr>)"

section \<open>The module loader \<^verbatim>\<open>load_tk_attention_module\<close>\<close>

datatype torch_dtype =
    float16 | bfloat16 | float32 | float64
  | float8_e4m3fn | float8_e5m2
  | complex64 | complex128
  | uint8 | int8 | int16 | int32 | int64
  | bool_dtype

datatype py_error =
    ValueError string
  | KeyError string
  | LoadError string

text \<open>The arguments of the one \<^verbatim>\<open>load_inline\<close> call that depend on the loader's inputs.\<close>

record load_request =
  lr_name :: string
  lr_cpp_sources :: "string list"
  lr_extra_cuda_cflags :: "string list"

type_synonym environ = "string \<rightharpoonup> string"

text \<open>
  The interpreter state the loader touches: the process environment, the memo table of
  \<^verbatim>\<open>functools.cache\<close>, and the requests handed to \<^verbatim>\<open>load_inline\<close> so far.
\<close>

record 'm py_state =
  environ :: environ
  cache :: "(torch_dtype \<times> bool) \<rightharpoonup> 'm"
  load_calls :: "load_request list"

text \<open>
  \<^verbatim>\<open>load_inline\<close> belongs to torch: it is a parameter, free to fail and to change the
  environment.
\<close>

type_synonym 'm load_inline = "load_request \<Rightarrow> environ \<Rightarrow> (py_error + 'm) \<times> environ"

definition base_cuda_cflags :: "string list" where
  "base_cuda_cflags =
     [''-std=c++20'', ''--expt-extended-lambda'', ''--expt-relaxed-constexpr'',
      ''--use_fast_math'', ''-lineinfo'', ''-O3'', ''-Xcudafe --diag_suppress=2361'',
      ''--threads=4'', ''-DNDEBUG'', ''-DKITTENS_HOPPER'']"

definition dtype_str :: "torch_dtype \<Rightarrow> string" where
  "dtype_str d =
     (case d of
        float16 \<Rightarrow> ''torch.float16'' | bfloat16 \<Rightarrow> ''torch.bfloat16''
      | float32 \<Rightarrow> ''torch.float32'' | float64 \<Rightarrow> ''torch.float64''
      | float8_e4m3fn \<Rightarrow> ''torch.float8_e4m3fn'' | float8_e5m2 \<Rightarrow> ''torch.float8_e5m2''
      | complex64 \<Rightarrow> ''torch.complex64'' | complex128 \<Rightarrow> ''torch.complex128''
      | uint8 \<Rightarrow> ''torch.uint8'' | int8 \<Rightarrow> ''torch.int8'' | int16 \<Rightarrow> ''torch.int16''
      | int32 \<Rightarrow> ''torch.int32'' | int64 \<Rightarrow> ''torch.int64'' | bool_dtype \<Rightarrow> ''torch.bool'')"

definition TORCH_CUDA_ARCH_LIST :: string where
  "TORCH_CUDA_ARCH_LIST = ''TORCH_CUDA_ARCH_LIST''"

definition fp8_decl :: string where
  "fp8_decl = ''std::vector<torch::Tensor> attention_forward(const torch::Tensor &q, const torch::Tensor &k, const torch::Tensor &v, const torch::Tensor &scale_q, const torch::Tensor &scale_k, bool causal);''"

definition plain_decl :: string where
  "plain_decl = ''std::vector<torch::Tensor> attention_forward(const torch::Tensor &q, const torch::Tensor &k, const torch::Tensor &v, bool causal);''"

text \<open>
  The \<^verbatim>\<open>finally\<close> block: \<^verbatim>\<open>os.environ.pop\<close> without a default raises \<^verbatim>\<open>KeyError\<close> on a
  missing key, and an exception raised there replaces the one in flight.
\<close>

definition restore_arch_list :: "string option \<Rightarrow> environ \<Rightarrow> py_error option \<times> environ" where
  "restore_arch_list old env =
     (case old of
        None \<Rightarrow>
          (case env TORCH_CUDA_ARCH_LIST of
             None \<Rightarrow> (Some (KeyError TORCH_CUDA_ARCH_LIST), env)
           | Some _ \<Rightarrow> (None, env(TORCH_CUDA_ARCH_LIST := None)))
      | Some s \<Rightarrow> (None, env(TORCH_CUDA_ARCH_LIST \<mapsto> s)))"

text \<open>The function body, below the \<^verbatim>\<open>functools.cache\<close> decorator.\<close>

definition load_body ::
  "'m load_inline \<Rightarrow> torch_dtype \<Rightarrow> bool \<Rightarrow> 'm py_state \<Rightarrow> (py_error + 'm) \<times> 'm py_state" where
  "load_body load_inline dtype is_fp8 st =
     (if dtype \<noteq> float16 \<and> dtype \<noteq> bfloat16 then
        (Inl (ValueError (''Unsupported dtype: '' @ dtype_str dtype)), st)
      else
        let flags0 = base_cuda_cflags @
               [if dtype = float16 then ''-DTK_ATTN_DTYPE_FP16'' else ''-DTK_ATTN_DTYPE_BF16''];
            flags = (if is_fp8 then flags0 @ [''-DTK_ATTN_IS_FP8''] else flags0);
            old_torch_cuda_arch_list = environ st TORCH_CUDA_ARCH_LIST;
            env1 = (environ st)(TORCH_CUDA_ARCH_LIST \<mapsto> ''9.0a'');
            req = \<lparr>lr_name = ''quantum_attn_tk_attention_dtype_'' @ drop 6 (dtype_str dtype)
                       @ ''_is_fp8_'' @ (if is_fp8 then ''True'' else ''False''),
                   lr_cpp_sources = [if is_fp8 then fp8_decl else plain_decl],
                   lr_extra_cuda_cflags = flags\<rparr>;
            (res, env2) = load_inline req env1;
            (fin_err, env3) = restore_arch_list old_torch_cuda_arch_list env2;
            st' = st\<lparr>environ := env3, load_calls := load_calls st @ [req]\<rparr>
        in case fin_err of
             Some e \<Rightarrow> (Inl e, st')
           | None \<Rightarrow> (res, st'))"

text \<open>
  \<^verbatim>\<open>functools.cache\<close>: a hit returns the stored module without running the body; a call
  that raises stores nothing.
\<close>

definition load_tk_attention_module ::
  "'m load_inline \<Rightarrow> torch_dtype \<Rightarrow> bool \<Rightarrow> 'm py_state \<Rightarrow> (py_error + 'm) \<times> 'm py_state" where
  "load_tk_attention_module load_inline dtype is_fp8 st =
     (case cache st (dtype, is_fp8) of
        Some m \<Rightarrow> (Inr m, st)
      | None \<Rightarrow>
          (case load_body load_inline dtype is_fp8 st of
             (Inr m, st') \<Rightarrow> (Inr m, st'\<lparr>cache := (cache st')((dtype, is_fp8) \<mapsto> m)\<rparr>)
           | (Inl e, st') \<Rightarrow> (Inl e, st')))"

text \<open>
  Every memo entry was stored by a call that returned, so its dtype passed the check of
  the body.
\<close>

definition cache_wf :: "'m py_state \<Rightarrow> bool" where
  "cache_wf st = (\<forall>d f. cache st (d, f) \<noteq> None \<longrightarrow> d = float16 \<or> d = bfloat16)"


section \<open>The kernel \<^verbatim>\<open>fwd_attend_ker\<close>: index computations\<close>

text \<open>The coordinates of one thread block, and the extent of the grid in \<open>y\<close>.\<close>

record block_ctx =
  blockIdx_x :: int
  blockIdx_y :: int
  blockIdx_z :: int
  gridDim_y :: int

definition kv_head_idx :: "block_ctx \<Rightarrow> int \<Rightarrow> int" where
  "kv_head_idx c hr = blockIdx_y c sdiv hr"

text \<open>The offsets at which a consumer reads its two dequantization scales (fp8 build).\<close>

definition scale_q_index :: "block_ctx \<Rightarrow> int" where
  "scale_q_index c = blockIdx_z c * gridDim_y c + blockIdx_y c"

definition scale_k_index :: "block_ctx \<Rightarrow> int" where
  "scale_k_index c = blockIdx_z c * gridDim_y c + blockIdx_y c"

text \<open>
  The offset of element \<open>(i, j)\<close> in a contiguous rank-2 tensor with \<open>ncols\<close> columns,
  which is how the launcher passes \<^verbatim>\<open>scale_q\<close> and \<^verbatim>\<open>scale_k\<close>.
\<close>

definition contiguous_offset2 :: "int \<Rightarrow> int \<Rightarrow> int \<Rightarrow> int" where
  "contiguous_offset2 ncols i j = i * ncols + j"

text \<open>The block context of grid cell \<open>(x, y, z)\<close> of a launch.\<close>

definition block_of :: "launch \<Rightarrow> int \<Rightarrow> int \<Rightarrow> int \<Rightarrow> block_ctx" where
  "block_of l x y z =
     \<lparr>blockIdx_x = x, blockIdx_y = y, blockIdx_z = z, gridDim_y = fst (snd (k_grid l))\<rparr>"

text \<open>
  Index arithmetic is on C++ \<^verbatim>\<open>int\<close>: \<open>sdiv\<close> and \<open>smod\<close> truncate towards zero as
  \<^verbatim>\<open>/\<close> and \<^verbatim>\<open>%\<close> do. The values are modelled as mathematical integers: sequence lengths
  of tensors that fit in device memory stay far below \<open>2 ^ 31\<close>.
\<close>

definition kv_blocks :: "tile_dims \<Rightarrow> int \<Rightarrow> int" where
  "kv_blocks K N = (N + kv_height K - 1) sdiv kv_height K"

definition seq_idx :: "block_ctx \<Rightarrow> int \<Rightarrow> int" where
  "seq_idx c CW = blockIdx_x c * CW"

subsection \<open>Producer\<close>

text \<open>
  The tiles loaded at kernel entry, \<^verbatim>\<open>for (j = 0; j < stages - 1; j++)\<close>, tile \<open>j\<close> each.
\<close>

definition prefetch_tiles :: "tile_dims \<Rightarrow> int list" where
  "prefetch_tiles K = [0 .. stages K - 1 - 1]"

definition producer_kv_iters :: "bool \<Rightarrow> tile_dims \<Rightarrow> int \<Rightarrow> int \<Rightarrow> int \<Rightarrow> int" where
  "producer_kv_iters is_causal K CW sidx N =
     (if is_causal then
        let kv_iters = sidx * qo_height K - 1 + CW * qo_height K
        in if kv_iters sdiv kv_height K = 0 then 0 else kv_iters sdiv kv_height K - 1
      else kv_blocks K N - 2)"

text \<open>
  The producer loop, \<^verbatim>\<open>for (kv_idx = pipe_idx - 1; kv_idx <= kv_iters; kv_idx++)\<close> with
  \<open>pipe_idx = stages - 1\<close>: iteration \<open>kv_idx\<close> loads the K and the V tile \<open>kv_idx + 1\<close>.
\<close>

definition producer_loop_tiles :: "tile_dims \<Rightarrow> int \<Rightarrow> int list" where
  "producer_loop_tiles K kv_iters =
     (let pipe_idx = stages K - 1 in map (\<lambda>kv_idx. kv_idx + 1) [pipe_idx - 1 .. kv_iters])"

definition loaded_tiles :: "tile_dims \<Rightarrow> launch \<Rightarrow> block_ctx \<Rightarrow> int list" where
  "loaded_tiles K l c =
     prefetch_tiles K @
     producer_loop_tiles K
       (producer_kv_iters (k_is_causal l) K (k_CONSUMER_WARPGROUPS l)
          (seq_idx c (k_CONSUMER_WARPGROUPS l)) (g_N l))"

text \<open>
  The last query row of a cell: its \<open>CONSUMER_WARPGROUPS\<close> query tiles start at tile
  \<open>seq_idx\<close> and have \<open>qo_height\<close> rows each.
\<close>

definition last_query_row :: "tile_dims \<Rightarrow> launch \<Rightarrow> block_ctx \<Rightarrow> int" where
  "last_query_row K l c =
     (seq_idx c (k_CONSUMER_WARPGROUPS l) + k_CONSUMER_WARPGROUPS l) * qo_height K - 1"

subsection \<open>Consumer\<close>

definition consumer_kv_iters :: "bool \<Rightarrow> tile_dims \<Rightarrow> int \<Rightarrow> int \<Rightarrow> int \<Rightarrow> int" where
  "consumer_kv_iters is_causal K CW sidx N =
     (if is_causal then
        (sidx * qo_height K - 1 + CW * qo_height K) sdiv kv_height K
      else kv_blocks K N - 1)"

text \<open>
  Floating-point values, in registers and in the tensors. Arithmetic on finite numbers is
  exact (no rounding, no overflow); \<open>MInf\<close> is \<open>-\<infinity>\<close>, the value the masks write; \<open>Bad\<close>
  stands for the remaining values, a NaN or \<open>+\<infinity>\<close>, and for what IEEE arithmetic makes of
  them.
\<close>

datatype fl = Fin real | MInf | Bad

fun fl_mul :: "fl \<Rightarrow> fl \<Rightarrow> fl" where
  "fl_mul (Fin a) (Fin b) = Fin (a * b)"
| "fl_mul MInf (Fin b) = (if 0 < b then MInf else Bad)"
| "fl_mul (Fin a) MInf = (if 0 < a then MInf else Bad)"
| "fl_mul _ _ = Bad"

fun fl_sub :: "fl \<Rightarrow> fl \<Rightarrow> fl" where
  "fl_sub (Fin a) (Fin b) = Fin (a - b)"
| "fl_sub MInf (Fin b) = MInf"
| "fl_sub _ _ = Bad"

fun fl_add :: "fl \<Rightarrow> fl \<Rightarrow> fl" where
  "fl_add (Fin a) (Fin b) = Fin (a + b)"
| "fl_add MInf (Fin b) = MInf"
| "fl_add (Fin a) MInf = MInf"
| "fl_add MInf MInf = MInf"
| "fl_add _ _ = Bad"

fun fl_max :: "fl \<Rightarrow> fl \<Rightarrow> fl" where
  "fl_max (Fin a) (Fin b) = Fin (max a b)"
| "fl_max MInf (Fin b) = Fin b"
| "fl_max (Fin a) MInf = Fin a"
| "fl_max MInf MInf = MInf"
| "fl_max _ _ = Bad"

fun fl_exp2 :: "fl \<Rightarrow> fl" where
  "fl_exp2 (Fin a) = Fin (2 powr a)"
| "fl_exp2 MInf = Fin 0"
| "fl_exp2 Bad = Bad"

fun fl_div :: "fl \<Rightarrow> fl \<Rightarrow> fl" where
  "fl_div (Fin a) (Fin b) = (if b = 0 then Bad else Fin (a / b))"
| "fl_div (Fin a) MInf = Fin 0"
| "fl_div _ _ = Bad"

text \<open>
  The kittens operations the consumer uses, on one row of a warp's register tiles: the
  score row \<^verbatim>\<open>att_block\<close> is a list over the columns of the key tile, \<^verbatim>\<open>o_reg\<close> a function of
  the feature column, and a row of V a function of the feature column.
\<close>

definition row_max :: "fl \<Rightarrow> fl list \<Rightarrow> fl" where
  "row_max m att = fold fl_max att m"

definition row_sum :: "fl \<Rightarrow> fl list \<Rightarrow> fl" where
  "row_sum n att = fold (\<lambda>a acc. fl_add acc a) att n"

definition mma_AB :: "(nat \<Rightarrow> fl) \<Rightarrow> fl list \<Rightarrow> (nat \<Rightarrow> fl) list \<Rightarrow> nat \<Rightarrow> fl" where
  "mma_AB o_reg p vt =
     (\<lambda>d. fold (\<lambda>(pc, v) acc. fl_add acc (fl_mul pc (v d))) (zip p vt) (o_reg d))"

text \<open>
  One entry of \<^verbatim>\<open>mm_ABt\<close>: the product of a row of Q with a row of K over the \<open>D\<close> feature
  columns, accumulated from zero.
\<close>

definition mm_ABt_entry :: "nat \<Rightarrow> (nat \<Rightarrow> fl) \<Rightarrow> (nat \<Rightarrow> fl) \<Rightarrow> fl" where
  "mm_ABt_entry D q k = fold (\<lambda>d acc. fl_add acc (fl_mul (q d) (k d))) [0..<D] (Fin 0)"

text \<open>\<^verbatim>\<open>right_fill(dst, src, col, val)\<close>: columns from \<open>col\<close> on become \<open>val\<close>.\<close>

definition right_fill :: "fl list \<Rightarrow> int \<Rightarrow> fl \<Rightarrow> fl list" where
  "right_fill att col val = map (\<lambda>c. if int c \<ge> col then val else att ! c) [0..<length att]"

text \<open>
  The causal masking loop over the 16-column subtiles \<open>j\<close> of the score row, for row \<open>rr\<close>
  of the warp's 16 rows: \<^verbatim>\<open>neg_infty\<close> on a subtile with \<open>k_idx > q_blk\<close>, \<^verbatim>\<open>make_causal\<close> on
  the subtile with \<open>k_idx = q_blk\<close>, which keeps the columns up to the diagonal.
\<close>

definition causal_mask_row :: "int \<Rightarrow> int \<Rightarrow> int \<Rightarrow> fl list \<Rightarrow> fl list" where
  "causal_mask_row q_blk k_blk rr att =
     map (\<lambda>c. let j = int c div TILE_ROW_DIM;
                   cc = int c mod TILE_ROW_DIM;
                   k_idx = k_blk + j
               in if k_idx > q_blk then MInf
                  else if k_idx = q_blk \<and> cc > rr then MInf
                  else att ! c)
         [0..<length att]"

definition apply_mask ::
  "bool \<Rightarrow> tile_dims \<Rightarrow> int \<Rightarrow> int \<Rightarrow> int \<Rightarrow> int \<Rightarrow> int \<Rightarrow> int \<Rightarrow> fl list \<Rightarrow> fl list" where
  "apply_mask is_causal K N sidx warpid rr kv_iters kv_idx att =
     (if is_causal then
        (if kv_idx = kv_iters - 1 \<or> kv_idx = kv_iters then
           causal_mask_row (sidx * (qo_height K sdiv TILE_ROW_DIM) + warpid)
             (kv_idx * (kv_height K sdiv TILE_ROW_DIM)) rr att
         else att)
      else
        (if kv_idx = kv_iters \<and> N smod kv_height K \<noteq> 0 then
           right_fill att (N smod kv_height K) MInf
         else att))"

text \<open>
  The factor \<open>log2(e) / sqrt(D)\<close> as the kernel writes it: \<open>D = 64\<close>, \<open>D = 128\<close>, and the
  \<^verbatim>\<open>else\<close> branch. The literals are taken as the decimal numbers they denote.
\<close>

definition softmax_scale :: "int \<Rightarrow> real" where
  "softmax_scale D =
     (if D = 64 then 1.44269504089 * 0.125
      else if D = 128 then 1.44269504089 * 0.08838834764
      else 1.44269504089 * 0.0625)"

text \<open>
  The instructions both builds run after \<^verbatim>\<open>row_max\<close>, on the registers each build names
  differently: subtract the new maximum from the scores and exponentiate, turn the old
  maximum into the factor \<open>exp2(old - new)\<close>, multiply the normalizer by it and add the
  row sum, multiply the accumulator by it and accumulate the product with the V tile.
\<close>

definition rescale_accumulate ::
  "fl \<Rightarrow> fl \<Rightarrow> fl list \<Rightarrow> fl \<Rightarrow> (nat \<Rightarrow> fl) \<Rightarrow> (nat \<Rightarrow> fl) list \<Rightarrow> fl \<times> (nat \<Rightarrow> fl)" where
  "rescale_accumulate max_last max_new att norm_vec o_reg vt =
     (let att1 = map (\<lambda>a. fl_sub a max_new) att;
          att2 = map fl_exp2 att1;
          max_last1 = fl_sub max_last max_new;
          max_last2 = fl_exp2 max_last1;
          norm1 = fl_mul norm_vec max_last2;
          norm2 = row_sum norm1 att2;
          o1 = (\<lambda>d. fl_mul (o_reg d) max_last2)
      in (norm2, mma_AB o1 att2 vt))"

text \<open>
  One iteration of the consumer loop for one row: the state is \<open>(max_vec, norm_vec, o_reg)\<close>,
  \<open>raw\<close> the row of \<open>Q \<cdot> K\<^sup>T\<close> for the current key tile, \<open>msk\<close> the masking of that
  iteration and \<open>vt\<close> the rows of the V tile. The fp8 build scales the scores by
  \<open>scale\<close> before masking and keeps the maximum in scaled units; the other build takes the
  maximum of the unscaled scores and multiplies scores and maxima by \<open>c\<close> afterwards.
\<close>

definition consumer_iter ::
  "bool \<Rightarrow> real \<Rightarrow> fl \<Rightarrow> (fl list \<Rightarrow> fl list) \<Rightarrow> fl \<times> fl \<times> (nat \<Rightarrow> fl)
     \<Rightarrow> fl list \<Rightarrow> (nat \<Rightarrow> fl) list \<Rightarrow> fl \<times> fl \<times> (nat \<Rightarrow> fl)" where
  "consumer_iter is_fp8 c scale msk st raw vt =
     (case st of (max_vec, norm_vec, o_reg) \<Rightarrow>
        if is_fp8 then
          let max_vec_last = max_vec;
              att_block = msk (map (\<lambda>a. fl_mul a scale) raw);
              max_vec' = row_max max_vec att_block;
              (norm', o') = rescale_accumulate max_vec_last max_vec' att_block norm_vec o_reg vt
          in (max_vec', norm', o')
        else
          let max_vec_last_scaled = fl_mul max_vec (Fin c);
              att_block = msk raw;
              max_vec' = row_max max_vec att_block;
              att_scaled = map (\<lambda>a. fl_mul a (Fin c)) att_block;
              max_vec_scaled = fl_mul max_vec' (Fin c);
              (norm', o') = rescale_accumulate max_vec_last_scaled max_vec_scaled att_scaled
                              norm_vec o_reg vt
          in (max_vec', norm', o'))"

text \<open>
  Tensors as the kernel reads them: \<open>T b h r d\<close> is the element of batch \<open>b\<close>, head \<open>h\<close>,
  row \<open>r\<close> and feature \<open>d\<close>, any floating-point value. A tile load past the end of the
  sequence delivers whatever the copy engine puts there; the function's values at those
  rows stand for it. A scale buffer is read by offset: the function gives what the
  kernel finds in device memory there.
\<close>

type_synonym tensor4 = "int \<Rightarrow> int \<Rightarrow> int \<Rightarrow> nat \<Rightarrow> fl"

text \<open>
  The query row that row \<open>rr\<close> of warp \<open>warpid\<close> works on: warpgroup \<open>warpid / 4\<close> owns query
  tile \<open>seq_idx + warpid / 4\<close>, and each of its four warps 16 consecutive rows of it.
\<close>

definition query_row :: "tile_dims \<Rightarrow> int \<Rightarrow> int \<Rightarrow> int \<Rightarrow> int" where
  "query_row K sidx warpid rr =
     (sidx + warpid sdiv WARPGROUP_WARPS) * qo_height K
       + (warpid smod WARPGROUP_WARPS) * TILE_ROW_DIM + rr"

definition score_row ::
  "nat \<Rightarrow> (nat \<Rightarrow> fl) \<Rightarrow> (int \<Rightarrow> nat \<Rightarrow> fl) \<Rightarrow> tile_dims \<Rightarrow> int \<Rightarrow> fl list" where
  "score_row D q Kmem K kv_idx =
     map (\<lambda>col. mm_ABt_entry D q (Kmem (kv_idx * kv_height K + int col)))
       [0..<nat (kv_height K)]"

definition v_tile :: "(int \<Rightarrow> nat \<Rightarrow> fl) \<Rightarrow> tile_dims \<Rightarrow> int \<Rightarrow> (nat \<Rightarrow> fl) list" where
  "v_tile Vmem K kv_idx =
     map (\<lambda>col. Vmem (kv_idx * kv_height K + int col)) [0..<nat (kv_height K)]"

text \<open>
  The consumer's whole computation for one row: the loop over the key/value tiles
  \<open>0, \<dots>, kv_iters\<close> from the initial state, then \<^verbatim>\<open>div_row\<close>. The result is the row of the
  output tile that is stored at \<open>query_row\<close>.
\<close>

definition consumer_row ::
  "bool \<Rightarrow> tile_dims \<Rightarrow> launch \<Rightarrow> block_ctx \<Rightarrow> int \<Rightarrow> int
     \<Rightarrow> tensor4 \<Rightarrow> tensor4 \<Rightarrow> tensor4 \<Rightarrow> (int \<Rightarrow> fl) \<Rightarrow> (int \<Rightarrow> fl) \<Rightarrow> nat \<Rightarrow> fl" where
  "consumer_row is_fp8 K l c warpid rr Q Kt V scale_q scale_k =
     (let CW = k_CONSUMER_WARPGROUPS l;
          sidx = seq_idx c CW;
          kv_iters = consumer_kv_iters (k_is_causal l) K CW sidx (g_N l);
          q = Q (blockIdx_z c) (blockIdx_y c) (query_row K sidx warpid rr);
          Kmem = Kt (blockIdx_z c) (kv_head_idx c (g_hr l));
          Vmem = V (blockIdx_z c) (kv_head_idx c (g_hr l));
          scale = fl_mul (fl_mul (scale_q (scale_q_index c)) (scale_k (scale_k_index c)))
                    (Fin (softmax_scale (k_D l)));
          st = fold (\<lambda>kv_idx st.
                  consumer_iter is_fp8 (softmax_scale (k_D l)) scale
                    (apply_mask (k_is_causal l) K (g_N l) sidx warpid rr kv_iters kv_idx)
                    st (score_row (nat (tile_width K)) q Kmem K kv_idx) (v_tile Vmem K kv_idx))
                [0..kv_iters] (MInf, Fin 0, \<lambda>d. Fin 0)
      in case st of (max_vec, norm_vec, o_reg) \<Rightarrow> (\<lambda>d. fl_div (o_reg d) norm_vec))"

subsection \<open>Notions used to state the properties\<close>

text \<open>A score that is masked, or no number at all.\<close>

definition dead :: "fl \<Rightarrow> bool" where
  "dead a = (a = MInf \<or> a = Bad)"

text \<open>A finite value, and the row of finite values \<open>v\<close> as a row of a tensor.\<close>

definition is_fin :: "fl \<Rightarrow> bool" where
  "is_fin a = (case a of Fin x \<Rightarrow> True | MInf \<Rightarrow> False | Bad \<Rightarrow> False)"

definition fin_row :: "(nat \<Rightarrow> real) \<Rightarrow> nat \<Rightarrow> fl" where
  "fin_row v = (\<lambda>d. Fin (v d))"


text \<open>
  The weight of a score \<open>a\<close> against the running maximum \<open>M\<close>, both multiplied by the
  factor \<open>pc\<close> the build applies after taking the maximum: \<open>exp2(a * pc - M * pc)\<close>, and 0
  for a masked score.
\<close>

definition weight :: "real \<Rightarrow> real \<Rightarrow> fl \<Rightarrow> real" where
  "weight pc M a = (case a of Fin x \<Rightarrow> 2 powr (x * pc - M * pc) | MInf \<Rightarrow> 0 | Bad \<Rightarrow> 0)"

text \<open>
  The invariant of the streaming softmax as the specification words it: the running
  normalizer and the running accumulator are expressed relative to the current running
  maximum. \<open>hist\<close> lists, for every column consumed so far, its masked score and its row
  of V. Before the first tile the maximum is \<open>-\<infinity>\<close> and both registers are 0.
\<close>

definition rel_to_max ::
  "real \<Rightarrow> (fl \<times> (nat \<Rightarrow> real)) list \<Rightarrow> fl \<times> fl \<times> (nat \<Rightarrow> fl) \<Rightarrow> bool" where
  "rel_to_max pc hist st =
     (case st of (max_vec, norm_vec, o_reg) \<Rightarrow>
        max_vec = row_max MInf (map fst hist) \<and>
        (case max_vec of
           Fin M \<Rightarrow>
             norm_vec = Fin (\<Sum>(a, v) \<leftarrow> hist. weight pc M a) \<and>
             (\<forall>d. o_reg d = Fin (\<Sum>(a, v) \<leftarrow> hist. weight pc M a * v d))
         | MInf \<Rightarrow> hist = [] \<and> norm_vec = Fin 0 \<and> (\<forall>d. o_reg d = Fin 0)
         | Bad \<Rightarrow> False))"


text \<open>
  The specification's reference for one query row in non-causal mode: feature \<open>d\<close> of
  \<open>softmax(s * q \<cdot> K\<^sup>T / sqrt(D)) \<cdot> V\<close> over the key rows \<open>0, \<dots>, N - 1\<close>, with the
  dequantization factor \<open>s\<close> folded into the scores.
\<close>

definition reference_attention_row ::
  "real \<Rightarrow> nat \<Rightarrow> (nat \<Rightarrow> real) \<Rightarrow> (int \<Rightarrow> nat \<Rightarrow> real) \<Rightarrow> (int \<Rightarrow> nat \<Rightarrow> real) \<Rightarrow> int
     \<Rightarrow> nat \<Rightarrow> real" where
  "reference_attention_row s D q Kmem Vmem N d =
     (\<Sum>j \<leftarrow> [0..N - 1]. exp (s * (\<Sum>e < D. q e * Kmem j e) / sqrt (real D)) * Vmem j d)
       / (\<Sum>j \<leftarrow> [0..N - 1]. exp (s * (\<Sum>e < D. q e * Kmem j e) / sqrt (real D)))"

text \<open>
  The softmax over the key positions \<open>0, \<dots>, N - 1\<close> and no other, in the base the kernel
  uses: position \<open>j\<close> has weight \<open>exp2(e j)\<close>, and the output is the average of the rows of V
  with these weights.
\<close>

definition softmax_over :: "(int \<Rightarrow> real) \<Rightarrow> (int \<Rightarrow> nat \<Rightarrow> real) \<Rightarrow> int \<Rightarrow> nat \<Rightarrow> real" where
  "softmax_over e Vr N d =
     (\<Sum>j \<leftarrow> [0..N - 1]. 2 powr (e j) * Vr j d) / (\<Sum>j \<leftarrow> [0..N - 1]. 2 powr (e j))"

section \<open>Tile geometry and dispatch\<close>

text \<open>
  Claim C8. For each supported head dimension the geometry is: tile width \<open>D\<close>, query-tile
  height 64, key/value-tile height 128 for \<open>D = 64\<close> and \<open>D = 128\<close> and 64 for \<open>D = 256\<close>,
  two pipeline stages; and the launcher instantiates the kernel for that \<open>D\<close> with 3
  consumer warpgroups for \<open>D = 64\<close> and \<open>D = 128\<close>, 2 for \<open>D = 256\<close>, and 1 producer
  warpgroup, whatever the other arguments are.
\<close>

theorem tile_geometry_exact:
  "fwd_attend_ker_tile_dims 64
     = Some \<lparr>tile_width = 64, qo_height = 64, kv_height = 128, stages = 2\<rparr>
   \<and> fwd_attend_ker_tile_dims 128
     = Some \<lparr>tile_width = 128, qo_height = 64, kv_height = 128, stages = 2\<rparr>
   \<and> fwd_attend_ker_tile_dims 256
     = Some \<lparr>tile_width = 256, qo_height = 64, kv_height = 64, stages = 2\<rparr>
   \<and> map (\<lambda>l. (k_D l, k_CONSUMER_WARPGROUPS l, k_PRODUCER_WARPGROUPS l))
        (dispatch 64 c sq skv qh b hr) = [(64, 3, 1)]
   \<and> map (\<lambda>l. (k_D l, k_CONSUMER_WARPGROUPS l, k_PRODUCER_WARPGROUPS l))
        (dispatch 128 c sq skv qh b hr) = [(128, 3, 1)]
   \<and> map (\<lambda>l. (k_D l, k_CONSUMER_WARPGROUPS l, k_PRODUCER_WARPGROUPS l))
        (dispatch 256 c sq skv qh b hr) = [(256, 2, 1)]"
  by (simp add: fwd_attend_ker_tile_dims_def dispatch_def launch_for_def Let_def)

lemma dispatch_unsupported:
  "head_dim \<noteq> 64 \<Longrightarrow> head_dim \<noteq> 128 \<Longrightarrow> head_dim \<noteq> 256 \<Longrightarrow>
   dispatch head_dim c sq skv qh b hr = []"
  by (simp add: dispatch_def)

text \<open>
  Claim C3 asks for a validation error when the head dimension is not 64, 128 or 256.
  The launcher has no such check: with tensors of shape \<open>(1, 1, 64, 32)\<close> on one CUDA
  device every \<^verbatim>\<open>TORCH_CHECK\<close> passes, none of the three dispatch blocks is entered, and
  the call returns the output tensor it allocated with no kernel launched on it.
\<close>

theorem attention_forward_head_dim_32:
  "attention_forward rt False
     \<lparr>t_device = CUDA 0, t_sizes = [1, 1, 64, 32], t_dtype = kFloat16\<rparr>
     \<lparr>t_device = CUDA 0, t_sizes = [1, 1, 64, 32], t_dtype = kFloat16\<rparr>
     \<lparr>t_device = CUDA 0, t_sizes = [1, 1, 64, 32], t_dtype = kFloat16\<rparr>
     sq sk False
   = Inr \<lparr>o_sizes = [1, 1, 64, 32], launches = []\<rparr>"
  by (simp add: attention_forward_def is_cuda_def dim_def size_at_def dispatch_def Let_def
        signed_modulo_int_def signed_divide_int_def)

section \<open>Dequantization scale of the fp8 build\<close>

text \<open>
  Claim C2 says that the cell of batch \<open>b\<close> and query head \<open>h\<close> applies
  \<open>scale_k[b][h / hr]\<close>. The kernel reads \<^verbatim>\<open>scale_k\<close> at the offset it uses for
  \<^verbatim>\<open>scale_q\<close>, \<open>b * qo_heads + h\<close>. With batch 2, 2 query heads and 1 key/value head
  (\<open>hr = 2\<close>), the cell \<open>b = 0\<close>, \<open>h = 1\<close> reads offset 1, which is \<open>scale_k[1][0]\<close>, while
  \<open>scale_k[0][1 / 2]\<close> is at offset 0.
\<close>

theorem scale_k_index_gqa:
  "scale_k_index (block_of (launch_for 64 3 1 False 64 64 2 2 2) 0 1 0) = 1
   \<and> contiguous_offset2 1 0
       (kv_head_idx (block_of (launch_for 64 3 1 False 64 64 2 2 2) 0 1 0) 2) = 0
   \<and> contiguous_offset2 1 1 0 = 1"
  by (simp add: scale_k_index_def contiguous_offset2_def kv_head_idx_def block_of_def
        launch_for_def Let_def signed_divide_int_def)

text \<open>
  With batch 2, 2 query heads and 1 key/value head, the consumer of batch 0 and query
  head 1 reads its key scale at offset 1 of the \<open>(2, 1)\<close> buffer, while \<open>scale_k[0][0]\<close> is
  at offset 0: the row it computes is the same whatever value \<open>scale_k[0][0]\<close> has, for
  every head dimension, mask mode and input.
\<close>

lemma fp8_gqa_output_ignores_scale_k_of_its_batch:
  "scale_k_index (block_of (launch_for D CW PW causal seq_q N 2 2 2) x 1 0) = 1
   \<and> contiguous_offset2 1 0 (kv_head_idx (block_of (launch_for D CW PW causal seq_q N 2 2 2) x 1 0) 2) = 0
   \<and> consumer_row True K (launch_for D CW PW causal seq_q N 2 2 2)
         (block_of (launch_for D CW PW causal seq_q N 2 2 2) x 1 0) warpid rr
         Q Kt V scale_q (scale_k(0 := a))
     = consumer_row True K (launch_for D CW PW causal seq_q N 2 2 2)
         (block_of (launch_for D CW PW causal seq_q N 2 2 2) x 1 0) warpid rr
         Q Kt V scale_q (scale_k(0 := b))"
proof -
  let ?c = "block_of (launch_for D CW PW causal seq_q N 2 2 2) x 1 0"
  have i: "scale_k_index ?c = 1"
    by (simp add: scale_k_index_def block_of_def launch_for_def Let_def)
  have j: "contiguous_offset2 1 0 (kv_head_idx ?c 2) = 0"
    by (simp add: contiguous_offset2_def kv_head_idx_def block_of_def signed_divide_int_def)
  have "(scale_k(0 := a)) (scale_k_index ?c) = (scale_k(0 := b)) (scale_k_index ?c)"
    by (simp add: i)
  then have "consumer_row True K (launch_for D CW PW causal seq_q N 2 2 2) ?c warpid rr
         Q Kt V scale_q (scale_k(0 := a))
     = consumer_row True K (launch_for D CW PW causal seq_q N 2 2 2) ?c warpid rr
         Q Kt V scale_q (scale_k(0 := b))"
    unfolding consumer_row_def Let_def by (simp only:)
  then show ?thesis using i j by simp
qed

section \<open>The module loader\<close>

lemma restore_arch_list_key:
  "snd (restore_arch_list old env) TORCH_CUDA_ARCH_LIST = old"
  by (simp add: restore_arch_list_def split: option.splits)

lemma load_body_environ:
  "environ (snd (load_body li dtype is_fp8 st)) TORCH_CUDA_ARCH_LIST
     = environ st TORCH_CUDA_ARCH_LIST"
proof (cases "dtype \<noteq> float16 \<and> dtype \<noteq> bfloat16")
  case True
  then show ?thesis by (simp add: load_body_def)
next
  case False
  then show ?thesis
    by (simp add: load_body_def Let_def split_beta restore_arch_list_key split: option.splits)
qed

lemma load_body_calls:
  "dtype = float16 \<or> dtype = bfloat16 \<Longrightarrow>
   \<exists>req. load_calls (snd (load_body li dtype is_fp8 st)) = load_calls st @ [req]"
  by (simp add: load_body_def Let_def split_beta split: option.splits)

lemma load_body_bad_dtype:
  "dtype \<noteq> float16 \<Longrightarrow> dtype \<noteq> bfloat16 \<Longrightarrow>
   load_body li dtype is_fp8 st
     = (Inl (ValueError (''Unsupported dtype: '' @ dtype_str dtype)), st)"
  by (simp add: load_body_def)

text \<open>The memo table only ever holds entries for the two accepted dtypes.\<close>

lemma cache_wf_preserved:
  "cache_wf st \<Longrightarrow> cache_wf (snd (load_tk_attention_module li dtype is_fp8 st))"
proof (cases "cache st (dtype, is_fp8)")
  case (Some m)
  assume "cache_wf st"
  then show ?thesis using Some by (simp add: load_tk_attention_module_def)
next
  case None
  assume wf: "cache_wf st"
  obtain res st' where b: "load_body li dtype is_fp8 st = (res, st')"
    by (cases "load_body li dtype is_fp8 st")
  have c: "cache st' = cache st"
    using b by (auto simp: load_body_def Let_def split_beta split: if_splits option.splits)
  show ?thesis
  proof (cases res)
    case (Inl e)
    then show ?thesis using None b c wf
      by (simp add: load_tk_attention_module_def cache_wf_def)
  next
    case (Inr m)
    have "dtype = float16 \<or> dtype = bfloat16"
      using b Inr by (auto simp: load_body_def split: if_splits)
    then show ?thesis using None b c wf Inr
      by (auto simp: load_tk_attention_module_def cache_wf_def)
  qed
qed

text \<open>
  Claim C9. The loader accepts exactly \<open>float16\<close> and \<open>bfloat16\<close>. For every other dtype
  the call raises \<^verbatim>\<open>ValueError\<close> and leaves the state as it was, so \<^verbatim>\<open>load_inline\<close> was
  not called. For the two accepted dtypes the call either returns the memoised module or
  hands one request to \<^verbatim>\<open>load_inline\<close>.
\<close>

theorem load_dtype_check:
  assumes "cache_wf st"
  shows "(dtype \<noteq> float16 \<and> dtype \<noteq> bfloat16 \<longrightarrow>
            load_tk_attention_module li dtype is_fp8 st
              = (Inl (ValueError (''Unsupported dtype: '' @ dtype_str dtype)), st))
       \<and> (dtype = float16 \<or> dtype = bfloat16 \<longrightarrow>
            (case cache st (dtype, is_fp8) of
               Some m \<Rightarrow> load_tk_attention_module li dtype is_fp8 st = (Inr m, st)
             | None \<Rightarrow> (\<exists>req. load_calls (snd (load_tk_attention_module li dtype is_fp8 st))
                                = load_calls st @ [req])))"
proof (intro conjI impI)
  assume bad: "dtype \<noteq> float16 \<and> dtype \<noteq> bfloat16"
  with assms have "cache st (dtype, is_fp8) = None"
    unfolding cache_wf_def by blast
  with bad show "load_tk_attention_module li dtype is_fp8 st
              = (Inl (ValueError (''Unsupported dtype: '' @ dtype_str dtype)), st)"
    by (simp add: load_tk_attention_module_def load_body_bad_dtype)
next
  assume good: "dtype = float16 \<or> dtype = bfloat16"
  show "case cache st (dtype, is_fp8) of
               Some m \<Rightarrow> load_tk_attention_module li dtype is_fp8 st = (Inr m, st)
             | None \<Rightarrow> (\<exists>req. load_calls (snd (load_tk_attention_module li dtype is_fp8 st))
                                = load_calls st @ [req])"
  proof (cases "cache st (dtype, is_fp8)")
    case None
    from load_body_calls[OF good, of li is_fp8 st] obtain req where
      r: "load_calls (snd (load_body li dtype is_fp8 st)) = load_calls st @ [req]" by blast
    obtain res st' where b: "load_body li dtype is_fp8 st = (res, st')"
      by (cases "load_body li dtype is_fp8 st")
    show ?thesis using None r b
      by (cases res) (simp_all add: load_tk_attention_module_def)
  next
    case (Some m)
    then show ?thesis by (simp add: load_tk_attention_module_def)
  qed
qed

theorem load_dtype_check_witness:
  "cache_wf \<lparr>environ = Map.empty,
             cache = (Map.empty :: (torch_dtype \<times> bool) \<rightharpoonup> nat), load_calls = []\<rparr>
   \<and> load_tk_attention_module (\<lambda>req env. (Inr (0::nat), env)) float32 False
        \<lparr>environ = Map.empty, cache = Map.empty, load_calls = []\<rparr>
      = (Inl (ValueError ''Unsupported dtype: torch.float32''),
         \<lparr>environ = Map.empty, cache = Map.empty, load_calls = []\<rparr>)"
proof -
  have h: "cache_wf \<lparr>environ = Map.empty,
                     cache = (Map.empty :: (torch_dtype \<times> bool) \<rightharpoonup> nat), load_calls = []\<rparr>"
    by (simp add: cache_wf_def)
  show ?thesis
    using h load_dtype_check [OF h, of float32 "\<lambda>req env. (Inr (0::nat), env)" False]
    by (simp add: dtype_str_def)
qed

text \<open>
  Claim C10. Whatever \<^verbatim>\<open>load_inline\<close> does, and whether the call returns a module or
  raises, \<^verbatim>\<open>TORCH_CUDA_ARCH_LIST\<close> is afterwards what it was before the call: the same
  value, or unset if it was unset.
\<close>

theorem arch_list_restored:
  "environ (snd (load_tk_attention_module li dtype is_fp8 st)) TORCH_CUDA_ARCH_LIST
     = environ st TORCH_CUDA_ARCH_LIST"
proof (cases "cache st (dtype, is_fp8)")
  case (Some m)
  then show ?thesis by (simp add: load_tk_attention_module_def)
next
  case None
  obtain r st' where b: "load_body li dtype is_fp8 st = (r, st')"
    by (cases "load_body li dtype is_fp8 st")
  with load_body_environ [of li dtype is_fp8 st]
  have e: "environ st' TORCH_CUDA_ARCH_LIST = environ st TORCH_CUDA_ARCH_LIST" by simp
  show ?thesis using None b e
    by (cases r) (simp_all add: load_tk_attention_module_def)
qed

section \<open>Loop bounds and loaded tiles\<close>

lemma sdiv_nonneg: "0 \<le> a \<Longrightarrow> 0 < b \<Longrightarrow> (a::int) sdiv b = a div b"
  by (cases "a = 0") (simp_all add: signed_divide_int_def)

lemma smod_nonneg: "0 \<le> a \<Longrightarrow> 0 < b \<Longrightarrow> (a::int) smod b = a mod b"
  by (cases "a = 0") (simp_all add: signed_modulo_int_def)

lemma div_mult_le_int: "0 < b \<Longrightarrow> (a div b) * b \<le> (a::int)"
  using div_mult_mod_eq [of a b] pos_mod_sign [of b a] by linarith

lemma lt_div_mult_int: "0 < b \<Longrightarrow> (a::int) < (a div b) * b + b"
  using div_mult_mod_eq [of a b] pos_mod_bound [of b a] by linarith

lemma le_div_iff_int: "0 < b \<Longrightarrow> (t \<le> a div b) = (t * b \<le> (a::int))"
proof
  assume b: "0 < b" and "t \<le> a div b"
  then have "t * b \<le> (a div b) * b" by (simp add: mult_right_mono)
  with div_mult_le_int [OF b, of a] show "t * b \<le> a" by linarith
next
  assume b: "0 < b" and le: "t * b \<le> a"
  have "(t * b) div b \<le> a div b" using le b by (rule zdiv_mono1)
  moreover have "(t * b) div b = t" using b by simp
  ultimately show "t \<le> a div b" by simp
qed

lemma ceil_div: 
  assumes b: "0 < b"
  shows "\<lceil>real_of_int a / real_of_int b\<rceil> = (a + b - 1) div b"
proof (rule ceiling_unique)
  let ?q = "(a + b - 1) div b"
  have 1: "?q * b \<le> a + b - 1" using div_mult_le_int [OF b] .
  have 2: "a + b - 1 < ?q * b + b" using lt_div_mult_int [OF b] .
  have "(?q - 1) * b < a" using 1 by (simp add: algebra_simps)
  then have "real_of_int ((?q - 1) * b) < real_of_int a" by (simp only: of_int_less_iff)
  then show "real_of_int ?q - 1 < real_of_int a / real_of_int b"
    using b by (simp add: pos_less_divide_eq)
  have "a \<le> ?q * b" using 2 by linarith
  then have "real_of_int a \<le> real_of_int (?q * b)" by (simp only: of_int_le_iff)
  then show "real_of_int a / real_of_int b \<le> real_of_int ?q"
    using b by (simp add: pos_divide_le_eq)
qed


lemma map_succ_upto: "map (\<lambda>k. k + 1) [i..j] = [i + 1..j + 1]"
proof (induction i j rule: upto.induct)
  case (1 i j)
  show ?case
  proof (cases "i \<le> j")
    case True
    then show ?thesis using 1 by (simp add: upto_rec1 [of i j] upto_rec1 [of "i + 1" "j + 1"])
  next
    case False
    then show ?thesis by simp
  qed
qed

lemma dispatch_cases:
  assumes "l \<in> set (dispatch D causal seq_q N qo_heads batch hr)"
  shows "(D = 64 \<and> l = launch_for 64 3 1 causal seq_q N qo_heads batch hr)
       \<or> (D = 128 \<and> l = launch_for 128 3 1 causal seq_q N qo_heads batch hr)
       \<or> (D = 256 \<and> l = launch_for 256 2 1 causal seq_q N qo_heads batch hr)"
  using assms by (auto simp: dispatch_def split: if_splits)

lemma launch_for_sel:
  "k_is_causal (launch_for D CW PW causal seq_q N qo_heads batch hr) = causal"
  "k_CONSUMER_WARPGROUPS (launch_for D CW PW causal seq_q N qo_heads batch hr) = CW"
  "g_N (launch_for D CW PW causal seq_q N qo_heads batch hr) = N"
  "g_hr (launch_for D CW PW causal seq_q N qo_heads batch hr) = hr"
  "k_D (launch_for D CW PW causal seq_q N qo_heads batch hr) = D"
  by (simp_all add: launch_for_def Let_def)


lemma loaded_list: "0 \<le> T \<Longrightarrow> (0::int) # map (\<lambda>k. k + 1) [0 .. T - 1] = [0..T]"
  by (simp add: map_succ_upto upto_rec1 [of 0 T])

lemma tile_dims_cases:
  assumes "fwd_attend_ker_tile_dims D = Some K"
  shows "(D = 64 \<and> K = \<lparr>tile_width = 64, qo_height = 64, kv_height = 128, stages = 2\<rparr>)
       \<or> (D = 128 \<and> K = \<lparr>tile_width = 128, qo_height = 64, kv_height = 128, stages = 2\<rparr>)
       \<or> (D = 256 \<and> K = \<lparr>tile_width = 256, qo_height = 64, kv_height = 64, stages = 2\<rparr>)"
  using assms by (auto simp: fwd_attend_ker_tile_dims_def split: if_splits)

lemma producer_causal_128:
  assumes "0 \<le> x"
  shows "producer_kv_iters True \<lparr>tile_width = w, qo_height = 64, kv_height = 128, stages = 2\<rparr>
           3 (x * 3) N = (x * 192 + 191) div 128 - 1"
proof -
  have "0 \<le> x * 192 + 191" using assms by simp
  then have d: "(x * 192 + 191) sdiv 128 = (x * 192 + 191) div 128"
    by (simp add: sdiv_nonneg)
  have "0 < (x * 192 + 191) div 128" using assms by (simp add: pos_imp_zdiv_pos_iff)
  then have "(x * 192 + 191) div 128 \<noteq> 0" by simp
  then have nz: "(x * 192 + 191) div 128 \<noteq> 0" by simp
  have e: "x * 3 * 64 - 1 + 3 * 64 = x * 192 + 191" by simp
  show ?thesis
    unfolding producer_kv_iters_def Let_def tile_dims.simps
    by (simp only: e d) (simp add: nz)
qed

lemma producer_causal_64:
  assumes "0 \<le> x"
  shows "producer_kv_iters True \<lparr>tile_width = w, qo_height = 64, kv_height = 64, stages = 2\<rparr>
           2 (x * 2) N = (x * 128 + 127) div 64 - 1"
proof -
  have "0 \<le> x * 128 + 127" using assms by simp
  then have d: "(x * 128 + 127) sdiv 64 = (x * 128 + 127) div 64"
    by (simp add: sdiv_nonneg)
  have "0 < (x * 128 + 127) div 64" using assms by (simp add: pos_imp_zdiv_pos_iff)
  then have "(x * 128 + 127) div 64 \<noteq> 0" by simp
  then have nz: "(x * 128 + 127) div 64 \<noteq> 0" by simp
  have e: "x * 2 * 64 - 1 + 2 * 64 = x * 128 + 127" by simp
  show ?thesis
    unfolding producer_kv_iters_def Let_def tile_dims.simps
    by (simp only: e d) (simp add: nz)
qed

lemma loaded_causal_128:
  assumes "0 \<le> blockIdx_x c" "k_is_causal l" "k_CONSUMER_WARPGROUPS l = 3"
  shows "loaded_tiles \<lparr>tile_width = w, qo_height = 64, kv_height = 128, stages = 2\<rparr> l c
           = [0 .. (blockIdx_x c * 192 + 191) div 128]"
proof -
  have "0 \<le> (blockIdx_x c * 192 + 191) div 128"
    using assms(1) by (simp add: pos_imp_zdiv_nonneg_iff)
  then show ?thesis
    using assms producer_causal_128 [OF assms(1), of w "g_N l"]
    by (simp add: loaded_tiles_def prefetch_tiles_def producer_loop_tiles_def seq_idx_def
          Let_def loaded_list)
qed

lemma loaded_causal_64:
  assumes "0 \<le> blockIdx_x c" "k_is_causal l" "k_CONSUMER_WARPGROUPS l = 2"
  shows "loaded_tiles \<lparr>tile_width = w, qo_height = 64, kv_height = 64, stages = 2\<rparr> l c
           = [0 .. (blockIdx_x c * 128 + 127) div 64]"
proof -
  have "0 \<le> (blockIdx_x c * 128 + 127) div 64"
    using assms(1) by (simp add: pos_imp_zdiv_nonneg_iff)
  then show ?thesis
    using assms producer_causal_64 [OF assms(1), of w "g_N l"]
    by (simp add: loaded_tiles_def prefetch_tiles_def producer_loop_tiles_def seq_idx_def
          Let_def loaded_list)
qed

lemma loaded_noncausal:
  assumes "0 < g_N l" "\<not> k_is_causal l" "kvh = 128 \<or> kvh = 64"
  shows "loaded_tiles \<lparr>tile_width = w, qo_height = 64, kv_height = kvh, stages = 2\<rparr> l c
           = [0 .. \<lceil>real_of_int (g_N l) / real_of_int kvh\<rceil> - 1]"
proof -
  let ?N = "g_N l"
  have k0: "0 < kvh" using assms(3) by auto
  have c: "\<lceil>real_of_int ?N / real_of_int kvh\<rceil> = (?N + kvh - 1) div kvh"
    using k0 by (rule ceil_div)
  have "0 \<le> ?N + kvh - 1" using assms(1) k0 by linarith
  then have d: "(?N + kvh - 1) sdiv kvh = (?N + kvh - 1) div kvh"
    using k0 by (simp add: sdiv_nonneg)
  have "1 * kvh \<le> ?N + kvh - 1" using assms(1) by simp
  then have "1 \<le> (?N + kvh - 1) div kvh" using k0 by (simp only: le_div_iff_int)
  then have p: "0 \<le> (?N + kvh - 1) div kvh - 1" by simp
  have "loaded_tiles \<lparr>tile_width = w, qo_height = 64, kv_height = kvh, stages = 2\<rparr> l c
          = 0 # map (\<lambda>k. k + 1) [0 .. ((?N + kvh - 1) div kvh - 1) - 1]"
    using assms(2) d
    by (simp add: loaded_tiles_def prefetch_tiles_def producer_loop_tiles_def
          producer_kv_iters_def kv_blocks_def Let_def)
  also have "\<dots> = [0 .. (?N + kvh - 1) div kvh - 1]"
    using p by (rule loaded_list)
  finally show ?thesis using c by simp
qed

lemma sdiv_le_zero:
  assumes "a < b" "0 < b"
  shows "(a::int) sdiv b \<le> 0"
proof (cases "0 \<le> a")
  case True
  then have "a sdiv b = a div b" using assms(2) by (rule sdiv_nonneg)
  also have "\<dots> = 0" using True assms(1) by simp
  finally show ?thesis by simp
next
  case False
  then have "a sdiv b = - (\<bar>a\<bar> div b)" using assms(2) by (simp add: signed_divide_int_def)
  moreover have "0 \<le> \<bar>a\<bar> div b" using assms(2) by (simp add: pos_imp_zdiv_nonneg_iff)
  ultimately show ?thesis by simp
qed

lemma loaded_noncausal_empty:
  assumes "g_N l \<le> 0" "\<not> k_is_causal l" "kvh = 128 \<or> kvh = 64"
  shows "loaded_tiles \<lparr>tile_width = w, qo_height = 64, kv_height = kvh, stages = 2\<rparr> l c = [0]"
proof -
  have k0: "0 < kvh" using assms(3) by auto
  have "g_N l + kvh - 1 < kvh" using assms(1) by simp
  then have "(g_N l + kvh - 1) sdiv kvh \<le> 0" using k0 by (rule sdiv_le_zero)
  then have "(g_N l + kvh - 1) sdiv kvh - 2 < 0" by simp
  then show ?thesis
    using assms(2)
    by (simp add: loaded_tiles_def prefetch_tiles_def producer_loop_tiles_def
          producer_kv_iters_def kv_blocks_def Let_def)
qed

lemma loaded_noncausal_any:
  assumes "\<not> k_is_causal l" "kvh = 128 \<or> kvh = 64"
  shows "loaded_tiles \<lparr>tile_width = w, qo_height = 64, kv_height = kvh, stages = 2\<rparr> l c
           = [0 .. max 1 \<lceil>real_of_int (g_N l) / real_of_int kvh\<rceil> - 1]"
proof (cases "0 < g_N l")
  case True
  have k0: "0 < kvh" using assms(2) by auto
  have "0 < real_of_int (g_N l) / real_of_int kvh" using True k0 by simp
  then have "1 \<le> \<lceil>real_of_int (g_N l) / real_of_int kvh\<rceil>" by linarith
  then show ?thesis using loaded_noncausal [OF True assms] by (simp add: max_def)
next
  case False
  have k0: "0 < kvh" using assms(2) by auto
  have "real_of_int (g_N l) / real_of_int kvh \<le> 0"
    using False k0 by (simp add: divide_nonpos_pos)
  then have "\<lceil>real_of_int (g_N l) / real_of_int kvh\<rceil> \<le> 0" by linarith
  then have "max 1 \<lceil>real_of_int (g_N l) / real_of_int kvh\<rceil> = 1" by simp
  moreover have "loaded_tiles \<lparr>tile_width = w, qo_height = 64, kv_height = kvh, stages = 2\<rparr> l c
      = [0]"
    using False assms by (intro loaded_noncausal_empty) simp_all
  ultimately show ?thesis by simp
qed

text \<open>
  Claim C6 says that in non-causal mode the producer loads exactly the tiles
  \<open>0, \<dots>, \<lceil>N / kv_height\<rceil> - 1\<close>. The launcher accepts key and value tensors with no row:
  with Q of shape \<open>(1, 1, 64, 64)\<close> and K, V of shape \<open>(1, 1, 0, 64)\<close> every check passes and
  the kernel is launched with \<open>N = 0\<close>. The range of the claim is then empty, while the
  kernel loads tile 0 at entry, before any loop bound is computed.
\<close>

theorem producer_loads_tile_of_empty_sequence:
  "attention_forward \<lparr>attr_ok = \<lambda>l. True, launch_ok = \<lambda>l. True\<rparr> False
     \<lparr>t_device = CUDA 0, t_sizes = [1, 1, 64, 64], t_dtype = kFloat16\<rparr>
     \<lparr>t_device = CUDA 0, t_sizes = [1, 1, 0, 64], t_dtype = kFloat16\<rparr>
     \<lparr>t_device = CUDA 0, t_sizes = [1, 1, 0, 64], t_dtype = kFloat16\<rparr>
     \<lparr>t_device = CUDA 0, t_sizes = [], t_dtype = kFloat32\<rparr>
     \<lparr>t_device = CUDA 0, t_sizes = [], t_dtype = kFloat32\<rparr> False
   = Inr \<lparr>o_sizes = [1, 1, 64, 64], launches = [launch_for 64 3 1 False 64 0 1 1 1]\<rparr>
   \<and> loaded_tiles \<lparr>tile_width = 64, qo_height = 64, kv_height = 128, stages = 2\<rparr>
        (launch_for 64 3 1 False 64 0 1 1 1)
        (block_of (launch_for 64 3 1 False 64 0 1 1 1) 0 0 0) = [0]
   \<and> [0 .. \<lceil>real_of_int 0 / real_of_int 128\<rceil> - 1] = []"
proof -
  have 1: "attention_forward \<lparr>attr_ok = \<lambda>l. True, launch_ok = \<lambda>l. True\<rparr> False
     \<lparr>t_device = CUDA 0, t_sizes = [1, 1, 64, 64], t_dtype = kFloat16\<rparr>
     \<lparr>t_device = CUDA 0, t_sizes = [1, 1, 0, 64], t_dtype = kFloat16\<rparr>
     \<lparr>t_device = CUDA 0, t_sizes = [1, 1, 0, 64], t_dtype = kFloat16\<rparr>
     \<lparr>t_device = CUDA 0, t_sizes = [], t_dtype = kFloat32\<rparr>
     \<lparr>t_device = CUDA 0, t_sizes = [], t_dtype = kFloat32\<rparr> False
   = Inr \<lparr>o_sizes = [1, 1, 64, 64], launches = [launch_for 64 3 1 False 64 0 1 1 1]\<rparr>"
    by (simp add: attention_forward_def is_cuda_def dim_def size_at_def dispatch_def Let_def
          signed_modulo_int_def signed_divide_int_def)
  have 2: "loaded_tiles \<lparr>tile_width = 64, qo_height = 64, kv_height = 128, stages = 2\<rparr>
        (launch_for 64 3 1 False 64 0 1 1 1)
        (block_of (launch_for 64 3 1 False 64 0 1 1 1) 0 0 0) = [0]"
    by (rule loaded_noncausal_empty) (simp_all add: launch_for_sel)
  show ?thesis using 1 2 by simp
qed

text \<open>
  Claim C6, with the non-causal range extended to the empty sequence. For a cell of a
  launched kernel the tiles loaded at entry and by
  the producer loop are, each once: in causal mode exactly the tiles whose first key row
  is not past the cell's last query row; in non-causal mode the tiles
  \<open>0, \<dots>, max(1, \<lceil>N / kv_height\<rceil>) - 1\<close> in order, for every \<open>N\<close>: the tiles that cover the
  sequence, and tile 0 also when the sequence is empty.
\<close>

theorem producer_loaded_tiles_any_length:
  assumes "l \<in> set (dispatch D causal seq_q N qo_heads batch hr)"
      and "fwd_attend_ker_tile_dims D = Some K"
      and "0 \<le> blockIdx_x c"
  shows "(causal \<longrightarrow>
            distinct (loaded_tiles K l c) \<and>
            set (loaded_tiles K l c) = {t. 0 \<le> t \<and> t * kv_height K \<le> last_query_row K l c})
       \<and> (\<not> causal \<longrightarrow>
            loaded_tiles K l c
              = [0 .. max 1 \<lceil>real_of_int N / real_of_int (kv_height K)\<rceil> - 1])"
proof -
  have A: "distinct (loaded_tiles K l c) \<and>
      set (loaded_tiles K l c) = {t. 0 \<le> t \<and> t * kv_height K \<le> last_query_row K l c}"
    if "causal"
  proof -
    from dispatch_cases [OF assms(1)] tile_dims_cases [OF assms(2)]
    consider
        (a) "kv_height K = 128" "k_CONSUMER_WARPGROUPS l = 3" "k_is_causal l"
            "loaded_tiles K l c = [0 .. (blockIdx_x c * 192 + 191) div 128]"
            "last_query_row K l c = blockIdx_x c * 192 + 191"
      | (b) "kv_height K = 64" "k_CONSUMER_WARPGROUPS l = 2" "k_is_causal l"
            "loaded_tiles K l c = [0 .. (blockIdx_x c * 128 + 127) div 64]"
            "last_query_row K l c = blockIdx_x c * 128 + 127"
      using \<open>causal\<close> assms(3)
      by (elim disjE conjE; simp add: launch_for_sel loaded_causal_128 loaded_causal_64
            last_query_row_def seq_idx_def)
    then show ?thesis
    proof cases
      case a
      have "{0 .. (blockIdx_x c * 192 + 191) div 128}
              = {t. 0 \<le> t \<and> t * 128 \<le> blockIdx_x c * 192 + 191}"
        by (auto simp: le_div_iff_int)
      then show ?thesis using a by simp
    next
      case b
      have "{0 .. (blockIdx_x c * 128 + 127) div 64}
              = {t. 0 \<le> t \<and> t * 64 \<le> blockIdx_x c * 128 + 127}"
        by (auto simp: le_div_iff_int)
      then show ?thesis using b by simp
    qed
  qed
  have B: "loaded_tiles K l c = [0 .. max 1 \<lceil>real_of_int N / real_of_int (kv_height K)\<rceil> - 1]"
    if nc: "\<not> causal"
  proof -
    from dispatch_cases [OF assms(1)] have l: "g_N l = N" "\<not> k_is_causal l"
      using nc by (auto simp: launch_for_sel)
    from tile_dims_cases [OF assms(2)] obtain w kvh where
      K: "K = \<lparr>tile_width = w, qo_height = 64, kv_height = kvh, stages = 2\<rparr>"
         "kvh = 128 \<or> kvh = 64" by auto
    show ?thesis
      using loaded_noncausal_any [of l kvh w c] l K by simp
  qed
  show ?thesis using A B by blast
qed

text \<open>
  The theorem at \<open>N = 300\<close>, where the three tiles 0, 1, 2 cover the sequence, and at
  \<open>N = 0\<close>, where tile 0 is loaded.
\<close>

theorem producer_loaded_tiles_any_length_witness:
  "loaded_tiles \<lparr>tile_width = 64, qo_height = 64, kv_height = 128, stages = 2\<rparr>
        (launch_for 64 3 1 False 300 300 1 1 1)
        (block_of (launch_for 64 3 1 False 300 300 1 1 1) 0 0 0) = [0, 1, 2]
   \<and> loaded_tiles \<lparr>tile_width = 64, qo_height = 64, kv_height = 128, stages = 2\<rparr>
        (launch_for 64 3 1 False 64 0 1 1 1)
        (block_of (launch_for 64 3 1 False 64 0 1 1 1) 0 0 0) = [0]
   \<and> set (loaded_tiles \<lparr>tile_width = 64, qo_height = 64, kv_height = 128, stages = 2\<rparr>
        (launch_for 64 3 1 True 300 300 1 1 1)
        (block_of (launch_for 64 3 1 True 300 300 1 1 1) 1 0 0)) = {0, 1, 2}"
proof -
  let ?K = "\<lparr>tile_width = 64, qo_height = 64, kv_height = 128, stages = 2\<rparr>"
  have h2: "fwd_attend_ker_tile_dims 64 = Some ?K"
    by (simp add: fwd_attend_ker_tile_dims_def)
  have a1: "launch_for 64 3 1 False 300 300 1 1 1 \<in> set (dispatch 64 False 300 300 1 1 1)"
    by (simp add: dispatch_def)
  have a3: "(0::int) \<le> blockIdx_x (block_of (launch_for 64 3 1 False 300 300 1 1 1) 0 0 0)"
    by (simp add: block_of_def)
  have b1: "launch_for 64 3 1 False 64 0 1 1 1 \<in> set (dispatch 64 False 64 0 1 1 1)"
    by (simp add: dispatch_def)
  have b3: "(0::int) \<le> blockIdx_x (block_of (launch_for 64 3 1 False 64 0 1 1 1) 0 0 0)"
    by (simp add: block_of_def)
  have c1: "launch_for 64 3 1 True 300 300 1 1 1 \<in> set (dispatch 64 True 300 300 1 1 1)"
    by (simp add: dispatch_def)
  have c3: "(0::int) \<le> blockIdx_x (block_of (launch_for 64 3 1 True 300 300 1 1 1) 1 0 0)"
    by (simp add: block_of_def)
  have c4: "last_query_row ?K (launch_for 64 3 1 True 300 300 1 1 1)
              (block_of (launch_for 64 3 1 True 300 300 1 1 1) 1 0 0) = 383"
    by (simp add: last_query_row_def seq_idx_def block_of_def launch_for_sel)
  have c5: "{t. 0 \<le> t \<and> t * 128 \<le> (383::int)} = {0, 1, 2}" by auto
  have A: "loaded_tiles ?K (launch_for 64 3 1 False 300 300 1 1 1)
        (block_of (launch_for 64 3 1 False 300 300 1 1 1) 0 0 0) = [0, 1, 2]"
    using producer_loaded_tiles_any_length [OF a1 h2 a3] by (simp add: upto_rec1)
  have B: "loaded_tiles ?K (launch_for 64 3 1 False 64 0 1 1 1)
        (block_of (launch_for 64 3 1 False 64 0 1 1 1) 0 0 0) = [0]"
    using producer_loaded_tiles_any_length [OF b1 h2 b3] by simp
  have C: "set (loaded_tiles ?K (launch_for 64 3 1 True 300 300 1 1 1)
        (block_of (launch_for 64 3 1 True 300 300 1 1 1) 1 0 0)) = {0, 1, 2}"
    using producer_loaded_tiles_any_length [OF c1 h2 c3] by (simp add: c4 c5)
  show ?thesis using A B C by simp
qed

section \<open>Masking\<close>

lemma right_fill_nth:
  "c < length att \<Longrightarrow> right_fill att col v ! c = (if col \<le> int c then v else att ! c)"
  by (simp add: right_fill_def)

lemma length_right_fill: "length (right_fill att col v) = length att"
  by (simp add: right_fill_def)

lemma kv_blocks_bounds:
  assumes "0 \<le> N" "0 < kv_height K"
  shows "kv_blocks K N * kv_height K \<le> N + kv_height K - 1"
    and "N \<le> kv_blocks K N * kv_height K"
proof -
  have "0 \<le> N + kv_height K - 1" using assms by linarith
  then have d: "kv_blocks K N = (N + kv_height K - 1) div kv_height K"
    using assms by (simp add: kv_blocks_def sdiv_nonneg)
  show "kv_blocks K N * kv_height K \<le> N + kv_height K - 1"
    unfolding d using assms(2) by (rule div_mult_le_int)
  have "N + kv_height K - 1 < kv_blocks K N * kv_height K + kv_height K"
    unfolding d using assms(2) by (rule lt_div_mult_int)
  then show "N \<le> kv_blocks K N * kv_height K" by linarith
qed

lemma noncausal_pos:
  assumes kvh: "kvh = 128 \<or> kvh = 64" and N: "0 \<le> N"
      and q1: "q * kvh \<le> N + kvh - 1" and q2: "N \<le> q * kvh"
      and k0: "0 \<le> kv_idx" and k1: "kv_idx \<le> q - 1" and c: "int c < kvh"
  shows "(N \<le> kv_idx * kvh + int c) = (kv_idx = q - 1 \<and> N mod kvh \<noteq> 0 \<and> N mod kvh \<le> int c)"
proof -
  have kp: "0 < kvh" using kvh by auto
  have dm: "N = (N div kvh) * kvh + N mod kvh" by simp
  have m0: "0 \<le> N mod kvh" "N mod kvh < kvh" using kp by simp_all
  show ?thesis
  proof (cases "kv_idx = q - 1")
    case False
    then have "kv_idx + 1 \<le> q - 1" using k1 by simp
    then have "(kv_idx + 1) * kvh \<le> (q - 1) * kvh" using kp by (simp add: mult_right_mono)
    then have "kv_idx * kvh + kvh \<le> q * kvh - kvh" by (simp add: algebra_simps)
    then show ?thesis using False q1 c by linarith
  next
    case True
    then have q: "q = kv_idx + 1" by simp
    have qk: "q * kvh = kv_idx * kvh + kvh" unfolding q by (simp add: algebra_simps)
    show ?thesis
    proof (cases "N mod kvh = 0")
      case z: True
      then have "N = (N div kvh) * kvh" using dm by simp
      then obtain m where m: "N = m * kvh" ..
      have "m = q" using kvh m q1 q2 by auto
      then have "N = q * kvh" using m by simp
      then have "kv_idx * kvh + int c < N" using qk c by linarith
      then show ?thesis using z by simp
    next
      case nz: False
      define m where "m = N div kvh"
      define r where "r = N mod kvh"
      have e0: "N = m * kvh + r" unfolding m_def r_def by simp
      have r0: "0 < r" "r < kvh" using m0 nz unfolding r_def by linarith+
      have "m = q - 1" using kvh e0 r0 q1 q2 by auto
      then have e: "N = kv_idx * kvh + r" using e0 True by simp
      have "(N \<le> kv_idx * kvh + int c) = (r \<le> int c)" by (simp only: e) simp
      then show ?thesis using True nz unfolding r_def by simp
    qed
  qed
qed


lemma noncausal_mask_nth:
  assumes "fwd_attend_ker_tile_dims D = Some K" and "0 \<le> N"
      and "length att = nat (kv_height K)"
      and "0 \<le> kv_idx" and "kv_idx \<le> consumer_kv_iters False K CW sidx N"
      and "c < length att"
  shows "apply_mask False K N sidx warpid rr (consumer_kv_iters False K CW sidx N) kv_idx att ! c
           = (if N \<le> kv_idx * kv_height K + int c then MInf else att ! c)"
    and "N \<le> kv_idx * kv_height K + int c \<longrightarrow>
            kv_idx = consumer_kv_iters False K CW sidx N \<and> N smod kv_height K \<noteq> 0"
proof -
  from tile_dims_cases [OF assms(1)]
  have kvh: "kv_height K = 128 \<or> kv_height K = 64" by auto
  then have kp: "0 < kv_height K" by auto
  have sm: "N smod kv_height K = N mod kv_height K"
    using assms(2) kp by (rule smod_nonneg)
  have it: "consumer_kv_iters False K CW sidx N = kv_blocks K N - 1"
    by (simp add: consumer_kv_iters_def)
  have c: "int c < kv_height K" using assms(3,6) by simp
  note pos = noncausal_pos [OF kvh assms(2) kv_blocks_bounds [OF assms(2) kp] assms(4)
      assms(5) [unfolded it] c]
  show "apply_mask False K N sidx warpid rr (consumer_kv_iters False K CW sidx N) kv_idx att ! c
           = (if N \<le> kv_idx * kv_height K + int c then MInf else att ! c)"
    using pos assms(6) by (auto simp: apply_mask_def it sm right_fill_nth)
  show "N \<le> kv_idx * kv_height K + int c \<longrightarrow>
            kv_idx = consumer_kv_iters False K CW sidx N \<and> N smod kv_height K \<noteq> 0"
    using pos by (simp add: it sm)
qed


section \<open>Causal masking\<close>

lemma dead_mul: "dead a \<Longrightarrow> dead (fl_mul a (Fin c))"
  by (cases "0 < c") (auto simp: dead_def)

lemma dead_weight:
  "dead a \<Longrightarrow> is_fin v \<Longrightarrow> is_fin v' \<Longrightarrow>
   fl_mul (fl_exp2 (fl_sub a m)) v = fl_mul (fl_exp2 (fl_sub a m)) v'"
  by (cases m; cases v; cases v') (auto simp: dead_def is_fin_def)

lemma mma_AB_fold:
  "mma_AB o_reg p vt d
     = fold (\<lambda>x acc. fl_add acc x) (map (\<lambda>(pc, v). fl_mul pc (v d)) (zip p vt)) (o_reg d)"
  by (simp add: mma_AB_def fold_map comp_def split_def)

lemma mma_AB_cong:
  assumes "length p = length vt" "length vt = length vt'"
      and "\<forall>k < length vt. fl_mul (p ! k) ((vt ! k) d) = fl_mul (p ! k) ((vt' ! k) d)"
  shows "mma_AB o_reg p vt d = mma_AB o_reg p vt' d"
proof -
  have "map (\<lambda>(pc, v). fl_mul pc (v d)) (zip p vt)
          = map (\<lambda>(pc, v). fl_mul pc (v d)) (zip p vt')"
    using assms by (intro nth_equalityI) simp_all
  then show ?thesis by (simp only: mma_AB_fold)
qed

lemma rescale_accumulate_cong:
  assumes "length att = length vt" "length vt = length vt'"
      and "\<forall>k < length vt.
             (dead (att ! k) \<and> (\<forall>d. is_fin ((vt ! k) d) \<and> is_fin ((vt' ! k) d)))
             \<or> vt ! k = vt' ! k"
  shows "rescale_accumulate ml mn att n o_reg vt = rescale_accumulate ml mn att n o_reg vt'"
proof -
  let ?p = "map fl_exp2 (map (\<lambda>a. fl_sub a mn) att)"
  let ?o = "\<lambda>d. fl_mul (o_reg d) (fl_exp2 (fl_sub ml mn))"
  have "mma_AB ?o ?p vt d = mma_AB ?o ?p vt' d" for d
  proof (rule mma_AB_cong)
    show "length ?p = length vt" using assms(1) by simp
    show "length vt = length vt'" by (rule assms(2))
    show "\<forall>k < length vt. fl_mul (?p ! k) ((vt ! k) d) = fl_mul (?p ! k) ((vt' ! k) d)"
    proof (intro allI impI)
      fix k assume k: "k < length vt"
      then have pk: "?p ! k = fl_exp2 (fl_sub (att ! k) mn)" using assms(1) by simp
      from assms(3) k
      have "(dead (att ! k) \<and> is_fin ((vt ! k) d) \<and> is_fin ((vt' ! k) d)) \<or> vt ! k = vt' ! k"
        by blast
      then show "fl_mul (?p ! k) ((vt ! k) d) = fl_mul (?p ! k) ((vt' ! k) d)"
        unfolding pk using dead_weight by auto
    qed
  qed
  then have "mma_AB ?o ?p vt = mma_AB ?o ?p vt'" by (rule ext)
  then show ?thesis by (simp add: rescale_accumulate_def Let_def)
qed

lemma consumer_iter_cong:
  assumes lv: "length vt = length vt'" and lr: "length raw = length vt"
      and lm: "\<And>xs. length (msk xs) = length xs"
      and m1: "msk (map (\<lambda>a. fl_mul a scale) raw) = msk (map (\<lambda>a. fl_mul a scale) raw')"
      and m2: "msk raw = msk raw'"
      and dd: "\<And>xs k. length xs = length vt \<Longrightarrow> k < length vt \<Longrightarrow>
                 (msk xs ! k = MInf \<and> (\<forall>d. is_fin ((vt ! k) d) \<and> is_fin ((vt' ! k) d)))
                 \<or> vt ! k = vt' ! k"
  shows "consumer_iter is_fp8 c scale msk st raw vt = consumer_iter is_fp8 c scale msk st raw' vt'"
proof -
  obtain mx n o_reg where st: "st = (mx, n, o_reg)" by (cases st)
  show ?thesis
  proof (cases is_fp8)
    case True
    let ?att = "msk (map (\<lambda>a. fl_mul a scale) raw)"
    have "rescale_accumulate mx (row_max mx ?att) ?att n o_reg vt
            = rescale_accumulate mx (row_max mx ?att) ?att n o_reg vt'"
    proof (rule rescale_accumulate_cong)
      show "length ?att = length vt" using lm lr by simp
      show "length vt = length vt'" by (rule lv)
      show "\<forall>k < length vt.
              (dead (?att ! k) \<and> (\<forall>d. is_fin ((vt ! k) d) \<and> is_fin ((vt' ! k) d)))
              \<or> vt ! k = vt' ! k"
        using dd [of "map (\<lambda>a. fl_mul a scale) raw"] lr by (auto simp: dead_def)
    qed
    then show ?thesis using True m1 by (simp add: consumer_iter_def st Let_def)
  next
    case False
    let ?att = "map (\<lambda>a. fl_mul a (Fin c)) (msk raw)"
    let ?mn = "fl_mul (row_max mx (msk raw)) (Fin c)"
    have "rescale_accumulate (fl_mul mx (Fin c)) ?mn ?att n o_reg vt
            = rescale_accumulate (fl_mul mx (Fin c)) ?mn ?att n o_reg vt'"
    proof (rule rescale_accumulate_cong)
      show "length ?att = length vt" using lm lr by simp
      show "length vt = length vt'" by (rule lv)
      show "\<forall>k < length vt.
              (dead (?att ! k) \<and> (\<forall>d. is_fin ((vt ! k) d) \<and> is_fin ((vt' ! k) d)))
              \<or> vt ! k = vt' ! k"
      proof (intro allI impI)
        fix k assume k: "k < length vt"
        then have "?att ! k = fl_mul (msk raw ! k) (Fin c)" using lm lr by simp
        moreover from dd [OF lr k]
        have "(msk raw ! k = MInf \<and> (\<forall>d. is_fin ((vt ! k) d) \<and> is_fin ((vt' ! k) d)))
                \<or> vt ! k = vt' ! k" .
        ultimately show "(dead (?att ! k) \<and> (\<forall>d. is_fin ((vt ! k) d) \<and> is_fin ((vt' ! k) d)))
                \<or> vt ! k = vt' ! k"
          using dead_mul [of "msk raw ! k" c] by (auto simp: dead_def)
      qed
    qed
    then show ?thesis using False m2 by (simp add: consumer_iter_def st Let_def)
  qed
qed

lemma causal_mask_row_nth:
  "k < length att \<Longrightarrow>
   causal_mask_row q_blk k_blk rr att ! k
     = (if k_blk + int k div 16 > q_blk \<or> (k_blk + int k div 16 = q_blk \<and> int k mod 16 > rr)
        then MInf else att ! k)"
  by (simp add: causal_mask_row_def TILE_ROW_DIM_def Let_def)

lemma length_apply_mask:
  "length (apply_mask is_causal K N sidx warpid rr kv_iters kv_idx att) = length att"
  by (simp add: apply_mask_def causal_mask_row_def right_fill_def)

lemma causal_masked_iff:
  assumes "0 \<le> rr" "rr < 16"
  shows "(k_blk + int k div 16 > q_blk \<or> (k_blk + int k div 16 = q_blk \<and> int k mod 16 > rr))
       = (k_blk * 16 + int k > q_blk * 16 + rr)"
proof -
  define a where "a = int k div 16"
  define b where "b = int k mod 16"
  have k: "int k = a * 16 + b" unfolding a_def b_def by simp
  have b: "0 \<le> b" "b < 16" unfolding b_def by simp_all
  have "(k_blk + a > q_blk \<or> (k_blk + a = q_blk \<and> b > rr))
       = (k_blk * 16 + (a * 16 + b) > q_blk * 16 + rr)"
    using assms b by auto
  then show ?thesis unfolding a_def b_def by (simp only: div_mult_mod_eq)
qed

lemma early_tile_128:
  assumes "0 \<le> x" "t \<le> (x * 192 + 191) div 128 - 2" "int k < 128"
  shows "t * 128 + int k \<le> x * 192"
proof -
  have "(x * 192 + 191) div 128 * 128 \<le> x * 192 + 191" by (rule div_mult_le_int) simp
  moreover have "(t + 2) * 128 \<le> (x * 192 + 191) div 128 * 128"
    using assms(2) by (intro mult_right_mono) simp_all
  ultimately have "128 * t + 65 \<le> 192 * x" by (simp add: algebra_simps)
  then have "2 * t + 2 \<le> 3 * x" by linarith
  then show ?thesis using assms(3) by linarith
qed

lemma early_tile_64:
  assumes "0 \<le> x" "t \<le> (x * 128 + 127) div 64 - 2" "int k < 64"
  shows "t * 64 + int k \<le> x * 128"
proof -
  have "(x * 128 + 127) div 64 * 64 \<le> x * 128 + 127" by (rule div_mult_le_int) simp
  moreover have "(t + 2) * 64 \<le> (x * 128 + 127) div 64 * 64"
    using assms(2) by (intro mult_right_mono) simp_all
  ultimately have "64 * t + 1 \<le> 128 * x" by (simp add: algebra_simps)
  then have "t + 1 \<le> 2 * x" by linarith
  then show ?thesis using assms(3) by linarith
qed

lemma query_row_eq:
  assumes "0 \<le> warpid"
  shows "query_row \<lparr>tile_width = w, qo_height = 64, kv_height = kvh, stages = 2\<rparr> sidx warpid rr
           = sidx * 64 + warpid * 16 + rr"
proof -
  have sd: "warpid sdiv 4 = warpid div 4" "warpid smod 4 = warpid mod 4"
    using assms by (simp_all add: sdiv_nonneg smod_nonneg)
  define a where "a = warpid div 4"
  define b where "b = warpid mod 4"
  have dm: "warpid = a * 4 + b" unfolding a_def b_def by simp
  have ab: "(sidx + a) * 64 + b * 16 + rr = sidx * 64 + (a * 4 + b) * 16 + rr"
    by (simp add: algebra_simps)
  have "query_row \<lparr>tile_width = w, qo_height = 64, kv_height = kvh, stages = 2\<rparr> sidx warpid rr
          = (sidx + warpid div 4) * 64 + (warpid mod 4) * 16 + rr"
    by (simp add: query_row_def WARPGROUP_WARPS_def TILE_ROW_DIM_def sd)
  also have "\<dots> = sidx * 64 + warpid * 16 + rr"
    using ab by (simp only: a_def b_def div_mult_mod_eq)
  finally show ?thesis .
qed

lemma masked_tile_nth:
  assumes "0 \<le> rr" "rr < 16" "kvh = 128 \<or> kvh = 64" "k < length att"
  shows "causal_mask_row (sidx * (64 sdiv TILE_ROW_DIM) + warpid) (t * (kvh sdiv TILE_ROW_DIM)) rr att ! k
           = (if sidx * 64 + warpid * 16 + rr < t * kvh + int k then MInf else att ! k)"
proof -
  have a: "(64::int) sdiv TILE_ROW_DIM = 4"
    by (simp add: TILE_ROW_DIM_def signed_divide_int_def)
  have b: "t * (kvh sdiv TILE_ROW_DIM) * 16 = t * kvh"
    using assms(3) by (auto simp: TILE_ROW_DIM_def signed_divide_int_def)
  have c: "(sidx * 4 + warpid) * 16 + rr = sidx * 64 + warpid * 16 + rr"
    by (simp add: algebra_simps)
  show ?thesis
    unfolding a causal_mask_row_nth [OF assms(4)] causal_masked_iff [OF assms(1,2)] b c ..
qed

lemma causal_tile_nth:
  assumes cfg: "(kvh = 128 \<and> CW = 3) \<or> (kvh = 64 \<and> CW = 2)"
      and x: "0 \<le> x" and w: "0 \<le> warpid" and rr: "0 \<le> rr" "rr < 16"
      and K: "K = \<lparr>tile_width = wd, qo_height = 64, kv_height = kvh, stages = 2\<rparr>"
      and t: "t \<le> consumer_kv_iters True K CW (x * CW) N"
      and len: "length att = nat kvh" and k: "k < length att"
  shows "apply_mask True K N (x * CW) warpid rr (consumer_kv_iters True K CW (x * CW) N) t att ! k
           = (if query_row K (x * CW) warpid rr < t * kvh + int k then MInf else att ! k)"
proof -
  let ?T = "consumer_kv_iters True K CW (x * CW) N"
  have q: "query_row K (x * CW) warpid rr = x * CW * 64 + warpid * 16 + rr"
    unfolding K by (rule query_row_eq [OF w])
  have kvh: "kvh = 128 \<or> kvh = 64" using cfg by auto
  have kk: "int k < kvh" using len k by simp
  show ?thesis
  proof (cases "t = ?T - 1 \<or> t = ?T")
    case True
    then have "apply_mask True K N (x * CW) warpid rr ?T t att
                 = causal_mask_row (x * CW * (64 sdiv TILE_ROW_DIM) + warpid)
                     (t * (kvh sdiv TILE_ROW_DIM)) rr att"
      by (simp add: apply_mask_def K)
    then show ?thesis
      by (simp only: masked_tile_nth [OF rr kvh k] q)
  next
    case False
    then have t2: "t \<le> ?T - 2" using t by linarith
    have "t * kvh + int k \<le> x * CW * 64"
      using cfg
    proof (elim disjE conjE)
      assume c: "kvh = 128" "CW = 3"
      have "0 \<le> x * 192 + 191" using x by simp
      then have "?T = (x * 192 + 191) div 128"
        by (simp add: consumer_kv_iters_def K c sdiv_nonneg)
      with t2 have "t \<le> (x * 192 + 191) div 128 - 2" by simp
      from early_tile_128 [OF x this, of k] kk c show ?thesis by simp
    next
      assume c: "kvh = 64" "CW = 2"
      have "0 \<le> x * 128 + 127" using x by simp
      then have "?T = (x * 128 + 127) div 64"
        by (simp add: consumer_kv_iters_def K c sdiv_nonneg)
      with t2 have "t \<le> (x * 128 + 127) div 64 - 2" by simp
      from early_tile_64 [OF x this, of k] kk c show ?thesis by simp
    qed
    then have "\<not> query_row K (x * CW) warpid rr < t * kvh + int k"
      using q w rr by linarith
    moreover have "apply_mask True K N (x * CW) warpid rr ?T t att = att"
      using False by (simp add: apply_mask_def)
    ultimately show ?thesis by simp
  qed
qed

lemma length_score_row: "length (score_row D q Kmem K t) = nat (kv_height K)"
  by (simp add: score_row_def)

lemma length_v_tile: "length (v_tile Vmem K t) = nat (kv_height K)"
  by (simp add: v_tile_def)

lemma score_row_nth:
  "k < nat (kv_height K) \<Longrightarrow>
   score_row D q Kmem K t ! k = mm_ABt_entry D q (Kmem (t * kv_height K + int k))"
  by (simp add: score_row_def)

lemma v_tile_nth:
  "k < nat (kv_height K) \<Longrightarrow> v_tile Vmem K t ! k = Vmem (t * kv_height K + int k)"
  by (simp add: v_tile_def)

lemma causal_iter_agree:
  assumes cfg: "(kvh = 128 \<and> CW = 3) \<or> (kvh = 64 \<and> CW = 2)"
      and x: "0 \<le> x" and w: "0 \<le> warpid" and rr: "0 \<le> rr" "rr < 16"
      and K: "K = \<lparr>tile_width = wd, qo_height = 64, kv_height = kvh, stages = 2\<rparr>"
      and t: "0 \<le> t" "t \<le> consumer_kv_iters True K CW (x * CW) N"
      and KV: "\<forall>j. 0 \<le> j \<and> j \<le> query_row K (x * CW) warpid rr \<longrightarrow>
                 Kmem j = Kmem' j \<and> Vmem j = Vmem' j"
      and FV: "\<forall>j d. query_row K (x * CW) warpid rr < j \<longrightarrow>
                 is_fin (Vmem j d) \<and> is_fin (Vmem' j d)"
  shows "consumer_iter is_fp8 cc scale
           (apply_mask True K N (x * CW) warpid rr (consumer_kv_iters True K CW (x * CW) N) t)
           st (score_row D q Kmem K t) (v_tile Vmem K t)
       = consumer_iter is_fp8 cc scale
           (apply_mask True K N (x * CW) warpid rr (consumer_kv_iters True K CW (x * CW) N) t)
           st (score_row D q Kmem' K t) (v_tile Vmem' K t)"
proof (rule consumer_iter_cong)
  let ?msk = "apply_mask True K N (x * CW) warpid rr (consumer_kv_iters True K CW (x * CW) N) t"
  let ?i = "query_row K (x * CW) warpid rr"
  have kh: "kv_height K = kvh" by (simp add: K)
  have kp: "0 \<le> kvh" using cfg by auto
  note nth = causal_tile_nth [OF cfg x w rr K t(2)]
  have tk: "0 \<le> t * kvh + int k" for k using t(1) kp by simp
  show "length (v_tile Vmem K t) = length (v_tile Vmem' K t)"
    by (simp add: length_v_tile)
  show "length (score_row D q Kmem K t) = length (v_tile Vmem K t)"
    by (simp add: length_v_tile length_score_row)
  show "length (?msk xs) = length xs" for xs by (rule length_apply_mask)
  have agree: "?msk (map g (score_row D q Kmem K t)) = ?msk (map g (score_row D q Kmem' K t))"
    for g
  proof (rule nth_equalityI)
    show "length (?msk (map g (score_row D q Kmem K t)))
            = length (?msk (map g (score_row D q Kmem' K t)))"
      by (simp add: length_apply_mask length_score_row)
  next
    fix k assume "k < length (?msk (map g (score_row D q Kmem K t)))"
    then have k: "k < nat kvh" by (simp add: length_apply_mask length_score_row kh)
    have 1: "?msk (map g (score_row D q Kmem K t)) ! k
               = (if ?i < t * kvh + int k then MInf else map g (score_row D q Kmem K t) ! k)"
      by (rule nth) (simp_all add: length_score_row kh k)
    have 2: "?msk (map g (score_row D q Kmem' K t)) ! k
               = (if ?i < t * kvh + int k then MInf else map g (score_row D q Kmem' K t) ! k)"
      by (rule nth) (simp_all add: length_score_row kh k)
    have "map g (score_row D q Kmem K t) ! k = map g (score_row D q Kmem' K t) ! k"
      if "\<not> ?i < t * kvh + int k"
    proof -
      have "Kmem (t * kvh + int k) = Kmem' (t * kvh + int k)"
        using KV tk [of k] that by simp
      then show ?thesis using k by (simp add: length_score_row score_row_nth kh)
    qed
    then show "?msk (map g (score_row D q Kmem K t)) ! k
                 = ?msk (map g (score_row D q Kmem' K t)) ! k"
      unfolding 1 2 by simp
  qed
  show "?msk (map (\<lambda>a. fl_mul a scale) (score_row D q Kmem K t))
          = ?msk (map (\<lambda>a. fl_mul a scale) (score_row D q Kmem' K t))"
    by (rule agree)
  show "?msk (score_row D q Kmem K t) = ?msk (score_row D q Kmem' K t)"
    using agree [of "\<lambda>a. a"] by simp
  show "(?msk xs ! k = MInf
           \<and> (\<forall>d. is_fin ((v_tile Vmem K t ! k) d) \<and> is_fin ((v_tile Vmem' K t ! k) d)))
          \<or> v_tile Vmem K t ! k = v_tile Vmem' K t ! k"
    if "length xs = length (v_tile Vmem K t)" "k < length (v_tile Vmem K t)" for xs k
  proof -
    have k: "k < nat kvh" and lx: "length xs = nat kvh"
      using that by (simp_all add: length_v_tile kh)
    have 1: "?msk xs ! k = (if ?i < t * kvh + int k then MInf else xs ! k)"
      by (rule nth) (simp_all add: lx k)
    show ?thesis
    proof (cases "?i < t * kvh + int k")
      case True
      then show ?thesis using 1 FV k by (simp add: v_tile_nth kh)
    next
      case False
      then have "Vmem (t * kvh + int k) = Vmem' (t * kvh + int k)"
        using KV tk [of k] by simp
      then show ?thesis using k by (simp add: v_tile_nth kh)
    qed
  qed
qed

text \<open>
  Claim C4, for inputs whose rows of V past \<open>i\<close> hold finite values. In causal mode,
  for a cell of a launched kernel and the query row \<open>i\<close> that row \<open>rr\<close> of warp \<open>warpid\<close>
  computes: two inputs that agree on row \<open>i\<close> of Q
  and on the rows \<open>0, \<dots>, i\<close> of K and V (of the cell's batch and heads), and whose rows of
  V past \<open>i\<close> hold finite values, give the same output row, in both builds. Q, K and the
  rows \<open>0, \<dots>, i\<close> of V may hold any value, finite or not, and nothing is assumed about
  the later rows of K. The scale buffers are what the kernel reads in device memory, the
  same in both runs. The finiteness of the later rows of V is needed: a masked score has
  weight 0, and the tile product \<open>mma_AB\<close> multiplies it with the row of V all the same.
\<close>

theorem causal_noninterference_finite_v:
  assumes l: "l \<in> set (dispatch D True seq_q N qo_heads batch hr)"
      and K: "fwd_attend_ker_tile_dims D = Some K"
      and x: "0 \<le> blockIdx_x c" and w: "0 \<le> warpid"
      and rr: "0 \<le> rr" "rr < TILE_ROW_DIM"
      and i: "i = query_row K (seq_idx c (k_CONSUMER_WARPGROUPS l)) warpid rr"
      and Q: "Q (blockIdx_z c) (blockIdx_y c) i = Q' (blockIdx_z c) (blockIdx_y c) i"
      and KV: "\<forall>j. 0 \<le> j \<and> j \<le> i \<longrightarrow>
                 Kt (blockIdx_z c) (kv_head_idx c (g_hr l)) j
                   = Kt' (blockIdx_z c) (kv_head_idx c (g_hr l)) j
               \<and> V (blockIdx_z c) (kv_head_idx c (g_hr l)) j
                   = V' (blockIdx_z c) (kv_head_idx c (g_hr l)) j"
      and FV: "\<forall>j d. i < j \<longrightarrow>
                 is_fin (V (blockIdx_z c) (kv_head_idx c (g_hr l)) j d)
               \<and> is_fin (V' (blockIdx_z c) (kv_head_idx c (g_hr l)) j d)"
  shows "consumer_row is_fp8 K l c warpid rr Q Kt V scale_q scale_k
           = consumer_row is_fp8 K l c warpid rr Q' Kt' V' scale_q scale_k"
proof -
  let ?CW = "k_CONSUMER_WARPGROUPS l"
  let ?x = "blockIdx_x c"
  from dispatch_cases [OF l] tile_dims_cases [OF K]
  obtain wd kvh where
    Kd: "K = \<lparr>tile_width = wd, qo_height = 64, kv_height = kvh, stages = 2\<rparr>"
    and cfg: "(kvh = 128 \<and> ?CW = 3) \<or> (kvh = 64 \<and> ?CW = 2)"
    and causal: "k_is_causal l"
    by (elim disjE conjE; simp add: launch_for_sel)
  have rr16: "rr < 16" using rr(2) by (simp add: TILE_ROW_DIM_def)
  have sidx: "seq_idx c ?CW = ?x * ?CW" by (simp add: seq_idx_def)
  let ?T = "consumer_kv_iters True K ?CW (?x * ?CW) (g_N l)"
  let ?f = "\<lambda>Q Kt V kv_idx st.
      consumer_iter is_fp8 (softmax_scale (k_D l))
        (fl_mul (fl_mul (scale_q (scale_q_index c)) (scale_k (scale_k_index c)))
           (Fin (softmax_scale (k_D l))))
        (apply_mask True K (g_N l) (?x * ?CW) warpid rr ?T kv_idx) st
        (score_row (nat (tile_width K)) (Q (blockIdx_z c) (blockIdx_y c) i)
           (Kt (blockIdx_z c) (kv_head_idx c (g_hr l))) K kv_idx)
        (v_tile (V (blockIdx_z c) (kv_head_idx c (g_hr l))) K kv_idx)"
  have step: "?f Q Kt V t = ?f Q' Kt' V' t" if "t \<in> set [0..?T]" for t
  proof (rule ext)
    fix st
    from that have t: "0 \<le> t" "t \<le> ?T" by simp_all
    have "?f Q Kt V t st = ?f Q Kt' V' t st"
      by (rule causal_iter_agree [OF cfg x w rr(1) rr16 Kd t])
         (use KV FV i sidx in simp_all)
    then show "?f Q Kt V t st = ?f Q' Kt' V' t st" by (simp only: Q)
  qed
  have "fold (?f Q Kt V) [0..?T] (MInf, Fin 0, \<lambda>d. Fin 0)
          = fold (?f Q' Kt' V') [0..?T] (MInf, Fin 0, \<lambda>d. Fin 0)"
    by (rule fold_cong) (simp_all add: step)
  moreover have i2: "query_row K (?x * ?CW) warpid rr = i" using i sidx by simp
  ultimately show ?thesis
    unfolding consumer_row_def Let_def sidx using causal by simp
qed


theorem causal_noninterference_finite_v_witness:
  "consumer_row False \<lparr>tile_width = 64, qo_height = 64, kv_height = 128, stages = 2\<rparr>
     (launch_for 64 3 1 True 192 192 1 1 1)
     \<lparr>blockIdx_x = 0, blockIdx_y = 0, blockIdx_z = 0, gridDim_y = 1\<rparr> 0 5
     (\<lambda>b h r d. Fin 1) (\<lambda>b h r d. Fin 1) (\<lambda>b h r d. Fin 1) (\<lambda>n. Fin 1) (\<lambda>n. Fin 1)
   = consumer_row False \<lparr>tile_width = 64, qo_height = 64, kv_height = 128, stages = 2\<rparr>
     (launch_for 64 3 1 True 192 192 1 1 1)
     \<lparr>blockIdx_x = 0, blockIdx_y = 0, blockIdx_z = 0, gridDim_y = 1\<rparr> 0 5
     (\<lambda>b h r d. Fin 1) (\<lambda>b h r d. if r \<le> 5 then Fin 1 else Bad)
     (\<lambda>b h r d. if r \<le> 5 then Fin 1 else Fin 0)
     (\<lambda>n. Fin 1) (\<lambda>n. Fin 1)"
proof -
  let ?K = "\<lparr>tile_width = 64, qo_height = 64, kv_height = 128, stages = 2\<rparr>"
  let ?l = "launch_for 64 3 1 True 192 192 1 1 1"
  let ?c = "\<lparr>blockIdx_x = 0, blockIdx_y = 0, blockIdx_z = 0, gridDim_y = 1\<rparr>"
  have h1: "?l \<in> set (dispatch 64 True 192 192 1 1 1)" by (simp add: dispatch_def)
  have h2: "fwd_attend_ker_tile_dims 64 = Some ?K" by (simp add: fwd_attend_ker_tile_dims_def)
  have h3: "0 \<le> blockIdx_x ?c" by simp
  have h4: "(0::int) \<le> 0" by simp
  have h5: "(0::int) \<le> 5" "(5::int) < TILE_ROW_DIM" by (simp_all add: TILE_ROW_DIM_def)
  have h6: "5 = query_row ?K (seq_idx ?c (k_CONSUMER_WARPGROUPS ?l)) 0 5"
    by (simp add: query_row_def seq_idx_def launch_for_def Let_def)
  show ?thesis
    by (rule causal_noninterference_finite_v [OF h1 h2 h3 h4 h5 h6]) (simp_all add: is_fin_def)
qed

section \<open>Streaming softmax\<close>

lemma fl_mul_one [simp]: "fl_mul a (Fin 1) = a"
  by (cases a) simp_all

lemma row_sum_Fin: "row_sum (Fin A) (map Fin ws) = Fin (A + sum_list ws)"
  unfolding row_sum_def by (induction ws arbitrary: A) (simp_all add: add.assoc)

lemma fold_add_Fin:
  "fold (\<lambda>x acc. fl_add acc x) (map Fin ws) (Fin A) = Fin (A + sum_list ws)"
  by (induction ws arbitrary: A) (simp_all add: add.assoc)

lemma mma_AB_Fin:
  assumes "length ws = length vr"
  shows "mma_AB (\<lambda>d. Fin (A d)) (map Fin ws) (map fin_row vr) d
           = Fin (A d + (\<Sum>(w, v) \<leftarrow> zip ws vr. w * v d))"
proof -
  have "map (\<lambda>(pc, v). fl_mul pc (v d)) (zip (map Fin ws) (map fin_row vr))
          = map Fin (map (\<lambda>(w, v). w * v d) (zip ws vr))"
    using assms by (intro nth_equalityI) (simp_all add: fin_row_def)
  then show ?thesis by (simp only: mma_AB_fold fold_add_Fin)
qed

lemma row_max_not_Bad:
  "m \<noteq> Bad \<Longrightarrow> Bad \<notin> set att \<Longrightarrow> row_max m att \<noteq> Bad"
  unfolding row_max_def
proof (induction att arbitrary: m)
  case Nil
  then show ?case by simp
next
  case (Cons a att)
  have "fl_max a m \<noteq> Bad" using Cons.prems by (cases a; cases m) simp_all
  then show ?case using Cons by simp
qed

lemma row_max_append: "row_max m (xs @ ys) = row_max (row_max m xs) ys"
  by (simp add: row_max_def)

lemma weight_shift:
  "weight pc M a * 2 powr (M * pc - M' * pc) = weight pc M' a"
  by (cases a) (simp_all add: weight_def powr_add [symmetric])

lemma exp_weight:
  assumes "0 < pc" "a \<noteq> Bad"
  shows "fl_exp2 (fl_sub (fl_mul a (Fin pc)) (Fin (M' * pc))) = Fin (weight pc M' a)"
  using assms by (cases a) (simp_all add: weight_def)

lemma sum_zip_fst:
  "length att = length vt \<Longrightarrow> (\<Sum>(a, v) \<leftarrow> zip att vt. f a) = (\<Sum>a \<leftarrow> att. f a)"
proof -
  assume l: "length att = length vt"
  have "map (\<lambda>(a, v). f a) (zip att vt) = map f (map fst (zip att vt))"
    by (simp add: case_prod_unfold)
  also have "\<dots> = map f att" using l by simp
  finally show ?thesis by simp
qed

lemma sum_zip_map:
  "(\<Sum>(w, v) \<leftarrow> zip (map g att) vt. w * v (d::nat)) = (\<Sum>(a, v) \<leftarrow> zip att vt. g a * v d :: real)"
  by (simp add: zip_map1 case_prod_unfold comp_def)

lemma rel_to_max_parts:
  assumes inv: "rel_to_max pc hist (m, n, o_reg)" and "0 < pc"
  shows "\<exists>r S A. fl_exp2 (fl_sub (fl_mul m (Fin pc)) (Fin (M' * pc))) = Fin r
           \<and> n = Fin S \<and> o_reg = (\<lambda>d. Fin (A d))
           \<and> S * r = (\<Sum>(a, v) \<leftarrow> hist. weight pc M' a)
           \<and> (\<forall>d. A d * r = (\<Sum>(a, v) \<leftarrow> hist. weight pc M' a * v d))
           \<and> m = row_max MInf (map fst hist)"
proof (cases m)
  case (Fin M)
  let ?r = "2 powr (M * pc - M' * pc)"
  let ?S = "\<Sum>(a, v) \<leftarrow> hist. weight pc M a"
  let ?A = "\<lambda>d. \<Sum>(a, v) \<leftarrow> hist. weight pc M a * v d"
  from inv Fin have n: "n = Fin ?S" and o: "\<forall>d. o_reg d = Fin (?A d)"
    and mm: "m = row_max MInf (map fst hist)"
    by (simp_all add: rel_to_max_def)
  have 1: "?S * ?r = (\<Sum>(a, v) \<leftarrow> hist. weight pc M' a)"
    by (simp add: sum_list_mult_const [symmetric] case_prod_unfold comp_def weight_shift)
  have 2: "?A d * ?r = (\<Sum>(a, v) \<leftarrow> hist. weight pc M' a * v d)" for d
  proof -
    have e: "weight pc M a * v * ?r = weight pc M' a * v" for a and v :: real
    proof -
      have "weight pc M a * v * ?r = (weight pc M a * ?r) * v" by simp
      also have "\<dots> = weight pc M' a * v" by (simp only: weight_shift)
      finally show ?thesis .
    qed
    have "?A d * ?r = (\<Sum>p \<leftarrow> hist. weight pc M (fst p) * snd p d * ?r)"
      by (simp add: sum_list_mult_const case_prod_unfold)
    also have "\<dots> = (\<Sum>p \<leftarrow> hist. weight pc M' (fst p) * snd p d)"
      by (simp only: e)
    also have "\<dots> = (\<Sum>(a, v) \<leftarrow> hist. weight pc M' a * v d)"
      by (simp add: case_prod_unfold)
    finally show ?thesis .
  qed
  have 3: "fl_exp2 (fl_sub (fl_mul m (Fin pc)) (Fin (M' * pc))) = Fin ?r"
    using Fin by simp
  have 4: "o_reg = (\<lambda>d. Fin (?A d))" using o by (intro ext) simp
  show ?thesis
    by (rule exI [of _ ?r], rule exI [of _ ?S], rule exI [of _ ?A])
       (intro conjI allI 3 n 4 1 2 mm)
next
  case MInf
  from inv MInf have h: "hist = []" "n = Fin 0" "\<forall>d. o_reg d = Fin 0"
    by (simp_all add: rel_to_max_def)
  have 3: "fl_exp2 (fl_sub (fl_mul m (Fin pc)) (Fin (M' * pc))) = Fin 0"
    using MInf assms(2) by simp
  have 4: "o_reg = (\<lambda>d. Fin 0)" using h(3) by (intro ext) simp
  have 5: "m = row_max MInf (map fst hist)" using h(1) MInf by (simp add: row_max_def)
  show ?thesis
    apply (rule exI [of _ 0], rule exI [of _ 0], rule exI [of _ "\<lambda>d. 0"])
    using 3 4 5 h by simp
next
  case Bad
  with inv show ?thesis by (simp add: rel_to_max_def)
qed

lemma rescale_accumulate_rel:
  assumes pc: "0 < pc" and len: "length att = length vr" and nb: "Bad \<notin> set att"
      and inv: "rel_to_max pc hist (m, n, o_reg)"
  shows "rescale_accumulate (fl_mul m (Fin pc)) (Fin (M' * pc))
           (map (\<lambda>a. fl_mul a (Fin pc)) att) n o_reg (map fin_row vr)
         = (Fin (\<Sum>(a, v) \<leftarrow> hist @ zip att vr. weight pc M' a),
            \<lambda>d. Fin (\<Sum>(a, v) \<leftarrow> hist @ zip att vr. weight pc M' a * v d))"
proof -
  from rel_to_max_parts [OF inv pc, of M'] obtain r S A where
    r: "fl_exp2 (fl_sub (fl_mul m (Fin pc)) (Fin (M' * pc))) = Fin r"
    and n: "n = Fin S" and o: "o_reg = (\<lambda>d. Fin (A d))"
    and S: "S * r = (\<Sum>(a, v) \<leftarrow> hist. weight pc M' a)"
    and A: "\<forall>d. A d * r = (\<Sum>(a, v) \<leftarrow> hist. weight pc M' a * v d)"
    by blast
  let ?ws = "map (weight pc M') att"
  have P: "map fl_exp2 (map (\<lambda>a. fl_sub a (Fin (M' * pc))) (map (\<lambda>a. fl_mul a (Fin pc)) att))
             = map Fin ?ws"
    using nb by (induction att) (auto simp: exp_weight [OF pc])
  have lw: "length ?ws = length vr" using len by simp
  have "row_sum (fl_mul n (Fin r)) (map Fin ?ws) = Fin (S * r + sum_list ?ws)"
    unfolding n fl_mul.simps by (rule row_sum_Fin)
  moreover have "S * r + sum_list ?ws = (\<Sum>(a, v) \<leftarrow> hist @ zip att vr. weight pc M' a)"
    by (simp add: S sum_zip_fst [OF len])
  ultimately have N: "row_sum (fl_mul n (Fin r)) (map Fin ?ws)
             = Fin (\<Sum>(a, v) \<leftarrow> hist @ zip att vr. weight pc M' a)"
    by simp
  have O: "mma_AB (\<lambda>d. fl_mul (o_reg d) (Fin r)) (map Fin ?ws) (map fin_row vr)
             = (\<lambda>d. Fin (\<Sum>(a, v) \<leftarrow> hist @ zip att vr. weight pc M' a * v d))"
  proof (rule ext)
    fix d
    have "mma_AB (\<lambda>d. fl_mul (o_reg d) (Fin r)) (map Fin ?ws) (map fin_row vr) d
            = Fin (A d * r + (\<Sum>(w, v) \<leftarrow> zip ?ws vr. w * v d))"
      unfolding o fl_mul.simps by (rule mma_AB_Fin [OF lw])
    moreover have "A d * r + (\<Sum>(w, v) \<leftarrow> zip ?ws vr. w * v d)
            = (\<Sum>(a, v) \<leftarrow> hist @ zip att vr. weight pc M' a * v d)"
      using A by (simp add: sum_zip_map)
    ultimately show "mma_AB (\<lambda>d. fl_mul (o_reg d) (Fin r)) (map Fin ?ws) (map fin_row vr) d
            = Fin (\<Sum>(a, v) \<leftarrow> hist @ zip att vr. weight pc M' a * v d)"
      by simp
  qed
  show ?thesis
    unfolding rescale_accumulate_def Let_def r P N O ..
qed

lemma consumer_iter_unfold:
  assumes "att = (if is_fp8 then msk (map (\<lambda>a. fl_mul a scale) raw) else msk raw)"
      and "pc = (if is_fp8 then 1 else c)"
  shows "consumer_iter is_fp8 c scale msk (max_vec, norm_vec, o_reg) raw vt
           = (row_max max_vec att,
              rescale_accumulate (fl_mul max_vec (Fin pc)) (fl_mul (row_max max_vec att) (Fin pc))
                (map (\<lambda>a. fl_mul a (Fin pc)) att) norm_vec o_reg vt)"
  using assms by (simp add: consumer_iter_def Let_def split_beta)

lemma consumer_iter_rel:
  assumes c: "0 < c"
      and att: "att = (if is_fp8 then msk (map (\<lambda>a. fl_mul a scale) raw) else msk raw)"
      and pc: "pc = (if is_fp8 then 1 else c)"
      and len: "length att = length vr" and nb: "Bad \<notin> set att"
      and inv: "rel_to_max pc hist (max_vec, norm_vec, o_reg)"
      and fin: "row_max max_vec att \<noteq> MInf"
  shows "rel_to_max pc (hist @ zip att vr)
           (consumer_iter is_fp8 c scale msk (max_vec, norm_vec, o_reg) raw (map fin_row vr))"
proof -
  have pc0: "0 < pc" using c pc by simp
  have u: "consumer_iter is_fp8 c scale msk (max_vec, norm_vec, o_reg) raw (map fin_row vr)
           = (row_max max_vec att,
              rescale_accumulate (fl_mul max_vec (Fin pc)) (fl_mul (row_max max_vec att) (Fin pc))
                (map (\<lambda>a. fl_mul a (Fin pc)) att) norm_vec o_reg (map fin_row vr))"
    by (rule consumer_iter_unfold [OF att pc])
  from inv have mb: "max_vec \<noteq> Bad" and mh: "max_vec = row_max MInf (map fst hist)"
    by (auto simp: rel_to_max_def)
  from row_max_not_Bad [OF mb nb] fin obtain M' where M': "row_max max_vec att = Fin M'"
    by (cases "row_max max_vec att") simp_all
  have 2: "rescale_accumulate (fl_mul max_vec (Fin pc)) (Fin (M' * pc))
                (map (\<lambda>a. fl_mul a (Fin pc)) att) norm_vec o_reg (map fin_row vr)
         = (Fin (\<Sum>(a, v) \<leftarrow> hist @ zip att vr. weight pc M' a),
            \<lambda>d. Fin (\<Sum>(a, v) \<leftarrow> hist @ zip att vr. weight pc M' a * v d))"
    by (rule rescale_accumulate_rel [OF pc0 len nb inv])
  have 3: "row_max MInf (map fst (hist @ zip att vr)) = Fin M'"
    using len mh M' by (simp add: row_max_append)
  have eq: "consumer_iter is_fp8 c scale msk (max_vec, norm_vec, o_reg) raw (map fin_row vr)
         = (Fin M', Fin (\<Sum>(a, v) \<leftarrow> hist @ zip att vr. weight pc M' a),
            \<lambda>d. Fin (\<Sum>(a, v) \<leftarrow> hist @ zip att vr. weight pc M' a * v d))"
    by (simp only: u M' fl_mul.simps 2)
  show ?thesis
    unfolding eq rel_to_max_def by (simp only: 3 prod.case fl.case) simp
qed

text \<open>
  Claim C5. One iteration of the consumer loop, in either build: with \<open>corr\<close> the factor
  \<open>exp2(old maximum - new maximum)\<close> in scaled units and \<open>P\<close> the exponentials of the new
  tile, the new normalizer is \<open>norm_vec * corr\<close> plus the row sum of \<open>P\<close> and the new
  accumulator is \<open>o_reg * corr\<close> plus \<open>P \<cdot> V\<close>, the same \<open>corr\<close> in both, whatever the tile
  \<open>vt\<close> of V holds. If normalizer and accumulator were expressed relative to the old
  maximum over the columns seen so far, they are afterwards, for a tile of finite rows
  \<open>vr\<close> of V, expressed relative to the new maximum over these and the new tile's
  columns. The row maximum must be finite after the iteration, which it is once one
  unmasked score has been seen.
\<close>

theorem online_softmax_rescale:
  assumes c: "0 < c"
      and att: "att = (if is_fp8 then msk (map (\<lambda>a. fl_mul a scale) raw) else msk raw)"
      and pc: "pc = (if is_fp8 then 1 else c)"
      and len: "length att = length vr" and nb: "Bad \<notin> set att"
      and inv: "rel_to_max pc hist (max_vec, norm_vec, o_reg)"
      and fin: "row_max max_vec att \<noteq> MInf"
      and corr: "corr = fl_exp2 (fl_sub (fl_mul max_vec (Fin pc))
                          (fl_mul (row_max max_vec att) (Fin pc)))"
      and P: "P = map (\<lambda>a. fl_exp2 (fl_sub (fl_mul a (Fin pc))
                          (fl_mul (row_max max_vec att) (Fin pc)))) att"
  shows "consumer_iter is_fp8 c scale msk (max_vec, norm_vec, o_reg) raw vt
           = (row_max max_vec att,
              row_sum (fl_mul norm_vec corr) P,
              mma_AB (\<lambda>d. fl_mul (o_reg d) corr) P vt)
       \<and> rel_to_max pc (hist @ zip att vr)
           (consumer_iter is_fp8 c scale msk (max_vec, norm_vec, o_reg) raw (map fin_row vr))"
proof -
  have u: "consumer_iter is_fp8 c scale msk (max_vec, norm_vec, o_reg) raw vt
           = (row_max max_vec att,
              rescale_accumulate (fl_mul max_vec (Fin pc)) (fl_mul (row_max max_vec att) (Fin pc))
                (map (\<lambda>a. fl_mul a (Fin pc)) att) norm_vec o_reg vt)"
    by (rule consumer_iter_unfold [OF att pc])
  have 1: "rescale_accumulate (fl_mul max_vec (Fin pc)) (fl_mul (row_max max_vec att) (Fin pc))
                (map (\<lambda>a. fl_mul a (Fin pc)) att) norm_vec o_reg vt
             = (row_sum (fl_mul norm_vec corr) P, mma_AB (\<lambda>d. fl_mul (o_reg d) corr) P vt)"
    by (simp add: rescale_accumulate_def Let_def corr P comp_def)
  have "rel_to_max pc (hist @ zip att vr)
           (consumer_iter is_fp8 c scale msk (max_vec, norm_vec, o_reg) raw (map fin_row vr))"
    by (rule consumer_iter_rel [OF c att pc len nb inv fin])
  then show ?thesis using u 1 by simp
qed

text \<open>
  The theorem at a second iteration of the 16-bit build with factor \<open>c = 2\<close>: one column
  of score 0 and row of V 1 has been consumed, the new tile has one column of score 1 and
  row of V 3. The maximum moves from 0 to 1, the correction factor is \<open>exp2(0 - 2) = 1/4\<close>,
  the normalizer becomes \<open>1 * 1/4 + 1 = 5/4\<close> and the accumulator \<open>1 * 1/4 + 3 = 13/4\<close>.
\<close>

theorem online_softmax_rescale_witness:
  "rel_to_max 2 [(Fin 0, \<lambda>d. 1)] (Fin 0, Fin 1, \<lambda>d. Fin 1)
   \<and> consumer_iter False 2 (Fin 1) (\<lambda>xs. xs) (Fin 0, Fin 1, \<lambda>d. Fin 1) [Fin 1] [fin_row (\<lambda>d. 3)]
       = (Fin 1, Fin (5 / 4), \<lambda>d. Fin (13 / 4))
   \<and> rel_to_max 2 [(Fin 0, \<lambda>d. 1), (Fin 1, \<lambda>d. 3)]
        (consumer_iter False 2 (Fin 1) (\<lambda>xs. xs) (Fin 0, Fin 1, \<lambda>d. Fin 1)
           [Fin 1] [fin_row (\<lambda>d. 3)])"
proof -
  have h1: "(0::real) < 2" by simp
  have h2: "[Fin 1] = (if False then (\<lambda>xs. xs) (map (\<lambda>a. fl_mul a (Fin 1)) [Fin 1])
                       else (\<lambda>xs. xs) [Fin 1])" by simp
  have h3: "(2::real) = (if False then 1 else 2)" by simp
  have h4: "length [Fin 1] = length [\<lambda>d::nat. 3::real]" by simp
  have h5: "Bad \<notin> set [Fin 1]" by simp
  have h6: "rel_to_max 2 [(Fin 0, \<lambda>d. 1)] (Fin 0, Fin 1, \<lambda>d. Fin 1)"
    by (simp add: rel_to_max_def row_max_def weight_def)
  have h7: "row_max (Fin 0) [Fin 1] \<noteq> MInf" by (simp add: row_max_def)
  have p: "(2::real) powr (- 2) = 1 / 4" by (simp add: powr_minus_divide)
  note t = online_softmax_rescale [OF h1 h2 h3 h4 h5 h6 h7 refl refl,
      where vt = "[fin_row (\<lambda>d. 3)]"]
  have e: "consumer_iter False 2 (Fin 1) (\<lambda>xs. xs) (Fin 0, Fin 1, \<lambda>d. Fin 1) [Fin 1]
             [fin_row (\<lambda>d. 3)] = (Fin 1, Fin (5 / 4), \<lambda>d. Fin (13 / 4))"
    using t [THEN conjunct1]
    by (simp add: row_max_def row_sum_def mma_AB_def fin_row_def p)
  show ?thesis using h6 e t [THEN conjunct2] by simp
qed

section \<open>The consumer loop as a whole\<close>

lemma upto_shift: "[a..a + int m - 1] = map (\<lambda>k. a + int k) [0..<m]"
proof (induction m)
  case 0
  show ?case by simp
next
  case (Suc m)
  have "[a..a + int (Suc m) - 1] = [a..a + int m - 1] @ [a + int m]"
    using upto_rec2 [of a "a + int m"] by simp
  then show ?case using Suc by simp
qed

lemma upto_cut: "0 \<le> n \<Longrightarrow> n \<le> L \<Longrightarrow> [0..L - 1] = [0..n - 1] @ [n..L - 1]"
proof (cases "n = L")
  case True
  then show ?thesis by simp
next
  case False
  assume "0 \<le> n" "n \<le> L"
  then show ?thesis using False upto_split1 [of 0 n "L - 1"] by simp
qed

lemma upto_tiles:
  assumes "0 \<le> a"
  shows "[0..a + int H - 1] = [0..a - 1] @ map (\<lambda>k. a + int k) [0..<H]"
proof -
  have "[0..a + int H - 1] = [0..a - 1] @ [a..a + int H - 1]"
    using upto_cut [of a "a + int H"] assms by simp
  then show ?thesis by (simp only: upto_shift)
qed

lemma row_max_MInf_iff:
  "m \<noteq> Bad \<Longrightarrow> Bad \<notin> set att
     \<Longrightarrow> (row_max m att = MInf) = (m = MInf \<and> (\<forall>x \<in> set att. x = MInf))"
  unfolding row_max_def
proof (induction att arbitrary: m)
  case Nil
  then show ?case by simp
next
  case (Cons a att)
  have nb: "fl_max a m \<noteq> Bad" using Cons.prems by (cases a; cases m) simp_all
  have "(fl_max a m = MInf) = (m = MInf \<and> a = MInf)"
    using Cons.prems by (cases a; cases m) simp_all
  then show ?case using Cons.IH [OF nb] Cons.prems by auto
qed

lemma consumer_loop_rel:
  fixes H :: nat
  assumes c: "0 < c" and pc: "pc = (if is_fp8 then 1 else c)"
      and att: "\<And>t. 0 \<le> t \<Longrightarrow> t \<le> T \<Longrightarrow>
                  (if is_fp8 then msk t (map (\<lambda>a. fl_mul a scale) (raw t)) else msk t (raw t))
                    = map (\<lambda>k. a (t * int H + int k)) [0..<H]"
      and vt: "\<And>t. 0 \<le> t \<Longrightarrow> t \<le> T \<Longrightarrow>
                  vt t = map (\<lambda>k. fin_row (Vr (t * int H + int k))) [0..<H]"
      and nb: "\<And>j. a j \<noteq> Bad" and a0: "a 0 \<noteq> MInf" and H: "0 < H"
      and m: "int m \<le> T + 1"
  shows "rel_to_max pc (map (\<lambda>j. (a j, Vr j)) [0..int m * int H - 1])
           (fold (\<lambda>t st. consumer_iter is_fp8 c scale (msk t) st (raw t) (vt t))
              [0..int m - 1] (MInf, Fin 0, \<lambda>d. Fin 0))"
  using m
proof (induction m)
  case 0
  show ?case by (simp add: rel_to_max_def row_max_def)
next
  case (Suc m)
  let ?f = "\<lambda>t st. consumer_iter is_fp8 c scale (msk t) st (raw t) (vt t)"
  let ?hist = "map (\<lambda>j. (a j, Vr j)) [0..int m * int H - 1]"
  let ?att = "map (\<lambda>k. a (int m * int H + int k)) [0..<H]"
  let ?vr = "map (\<lambda>k. Vr (int m * int H + int k)) [0..<H]"
  obtain mx nv o_reg where st: "fold ?f [0..int m - 1] (MInf, Fin 0, \<lambda>d. Fin 0) = (mx, nv, o_reg)"
    by (cases "fold ?f [0..int m - 1] (MInf, Fin 0, \<lambda>d. Fin 0)") auto
  have t: "0 \<le> int m" "int m \<le> T" using Suc.prems by simp_all
  have inv: "rel_to_max pc ?hist (mx, nv, o_reg)"
    using Suc.IH Suc.prems st by simp
  have e1: "[0..int (Suc m) - 1] = [0..int m - 1] @ [int m]"
    using upto_rec2 [of 0 "int m"] by simp
  have a1: "?att = (if is_fp8 then msk (int m) (map (\<lambda>a. fl_mul a scale) (raw (int m)))
                    else msk (int m) (raw (int m)))"
    using att [OF t] by simp
  have v1: "vt (int m) = map fin_row ?vr" using vt [OF t] by simp
  have len: "length ?att = length ?vr" by simp
  have "\<forall>x \<in> set ?att. x \<noteq> Bad" by (simp add: nb)
  then have nbs: "Bad \<notin> set ?att" by blast
  from inv have mb: "mx \<noteq> Bad" and mh: "mx = row_max MInf (map fst ?hist)"
    by (auto simp: rel_to_max_def)
  have nb': "Bad \<noteq> a j" for j by (rule not_sym) (rule nb)
  have pos: "[0..int (Suc m) * int H - 1]
               = [0..int m * int H - 1] @ map (\<lambda>k. int m * int H + int k) [0..<H]"
    using upto_tiles [of "int m * int H" H] by (simp add: algebra_simps)
  have hist': "?hist @ zip ?att ?vr = map (\<lambda>j. (a j, Vr j)) [0..int (Suc m) * int H - 1]"
    unfolding pos by (simp add: zip_map_map zip_same_conv_map comp_def)
  have "a 0 \<in> set (map fst ?hist @ ?att)"
  proof (cases m)
    case 0
    then show ?thesis using H by (auto simp: image_iff intro!: bexI [of _ 0])
  next
    case (Suc m')
    have "1 \<le> m * H" using Suc H by (cases H) simp_all
    then have "1 \<le> int (m * H)" by linarith
    then have "0 \<le> int m * int H - 1" by simp
    then have "(0::int) \<in> set [0..int m * int H - 1]" by simp
    then show ?thesis by (auto simp: image_iff comp_def intro!: bexI [of _ 0])
  qed
  moreover have "Bad \<notin> set (map fst ?hist @ ?att)"
  proof -
    have "\<forall>x \<in> set (map fst ?hist @ ?att). x \<noteq> Bad" by (auto simp: nb nb')
    then show ?thesis by blast
  qed
  ultimately have "row_max MInf (map fst ?hist @ ?att) \<noteq> MInf"
    using a0 by (subst row_max_MInf_iff) auto
  moreover have "row_max mx ?att = row_max MInf (map fst ?hist @ ?att)"
    by (simp only: row_max_append mh [symmetric])
  ultimately have fin: "row_max mx ?att \<noteq> MInf" by simp
  have "rel_to_max pc (?hist @ zip ?att ?vr)
          (consumer_iter is_fp8 c scale (msk (int m)) (mx, nv, o_reg) (raw (int m))
             (map fin_row ?vr))"
    by (rule consumer_iter_rel [OF c a1 pc len nbs inv fin])
  then show ?case
    by (simp only: e1 fold_append fold_simps comp_apply st v1 hist' id_apply)
qed

lemma sum_list_pos_real:
  "xs \<noteq> [] \<Longrightarrow> (\<And>x. x \<in> set xs \<Longrightarrow> 0 < f x) \<Longrightarrow> (0::real) < (\<Sum>x \<leftarrow> xs. f x)"
proof (induction xs)
  case Nil
  then show ?case by simp
next
  case (Cons x xs)
  show ?case
  proof (cases "xs = []")
    case True
    then show ?thesis using Cons.prems(2) [of x] by simp
  next
    case False
    have "0 < f x" using Cons.prems(2) by simp
    moreover have "0 < (\<Sum>x \<leftarrow> xs. f x)" using Cons.IH [OF False] Cons.prems(2) by simp
    ultimately show ?thesis by simp
  qed
qed

lemma rel_closed_form:
  assumes inv: "rel_to_max pc (map (\<lambda>j. (if n \<le> j then MInf else Fin (x j), Vr j)) [0..L - 1])
                  (mx, nv, o_reg)"
      and n: "1 \<le> n" "n \<le> L"
  shows "fl_div (o_reg d) nv = Fin (softmax_over (\<lambda>j. x j * pc) Vr n d)"
proof -
  let ?a = "\<lambda>j. if n \<le> j then MInf else Fin (x j)"
  let ?hist = "map (\<lambda>j. (?a j, Vr j)) [0..L - 1]"
  from inv have mb: "mx \<noteq> Bad" and mh: "mx = row_max MInf (map fst ?hist)"
    by (auto simp: rel_to_max_def)
  have "(0::int) \<in> set [0..L - 1]" using n by simp
  then have "?a 0 \<in> set (map fst ?hist)" by (auto simp: image_iff comp_def intro!: bexI [of _ 0])
  moreover have "?a 0 \<noteq> MInf" using n by simp
  moreover have "Bad \<notin> set (map fst ?hist)" by (auto simp: comp_def)
  ultimately have "row_max MInf (map fst ?hist) \<noteq> MInf"
    by (subst row_max_MInf_iff) auto
  then have "mx \<noteq> MInf" using mh by simp
  with mb obtain M where M: "mx = Fin M" by (cases mx) simp_all
  define k where "k = 2 powr (- (M * pc))"
  define S where "S = (\<Sum>j \<leftarrow> [0..n - 1]. 2 powr (x j * pc))"
  define A where "A = (\<Sum>j \<leftarrow> [0..n - 1]. 2 powr (x j * pc) * Vr j d)"
  have k: "0 < k" by (simp add: k_def)
  have cut: "[0..L - 1] = [0..n - 1] @ [n..L - 1]" using upto_cut [of n L] n by simp
  have w1: "weight pc M (?a j) = 2 powr (x j * pc) * k" if "j \<in> set [0..n - 1]" for j
    using that by (simp add: weight_def k_def powr_add [symmetric])
  have w2: "weight pc M (?a j) = 0" if "j \<in> set [n..L - 1]" for j
    using that by (simp add: weight_def)
  have s1: "(\<Sum>j \<leftarrow> [0..n - 1]. weight pc M (?a j)) = S * k"
  proof -
    have "map (\<lambda>j. weight pc M (?a j)) [0..n - 1] = map (\<lambda>j. 2 powr (x j * pc) * k) [0..n - 1]"
      by (rule map_cong [OF refl]) (rule w1)
    then show ?thesis by (simp only: S_def sum_list_mult_const)
  qed
  have s2: "(\<Sum>j \<leftarrow> [n..L - 1]. weight pc M (?a j)) = 0"
  proof -
    have e: "map (\<lambda>j. weight pc M (?a j)) [n..L - 1] = map (\<lambda>j. 0) [n..L - 1]"
      by (rule map_cong [OF refl]) (rule w2)
    show ?thesis unfolding e by simp
  qed
  have a1: "(\<Sum>j \<leftarrow> [0..n - 1]. weight pc M (?a j) * Vr j d) = A * k"
  proof -
    have "map (\<lambda>j. weight pc M (?a j) * Vr j d) [0..n - 1]
            = map (\<lambda>j. 2 powr (x j * pc) * Vr j d * k) [0..n - 1]"
      by (rule map_cong [OF refl]) (simp only: w1 mult_ac)
    then show ?thesis by (simp only: A_def sum_list_mult_const)
  qed
  have a2: "(\<Sum>j \<leftarrow> [n..L - 1]. weight pc M (?a j) * Vr j d) = 0"
  proof -
    have e: "map (\<lambda>j. weight pc M (?a j) * Vr j d) [n..L - 1] = map (\<lambda>j. 0) [n..L - 1]"
      by (rule map_cong [OF refl]) (simp only: w2 mult_zero_left)
    show ?thesis unfolding e by simp
  qed
  have nv: "nv = Fin (S * k)"
  proof -
    have "nv = Fin (\<Sum>(a, v) \<leftarrow> ?hist. weight pc M a)"
      using inv M by (simp add: rel_to_max_def)
    also have "(\<Sum>(a, v) \<leftarrow> ?hist. weight pc M a) = (\<Sum>j \<leftarrow> [0..L - 1]. weight pc M (?a j))"
      by (simp add: comp_def)
    also have "\<dots> = S * k" by (simp only: cut map_append sum_list_append s1 s2 add_0_right)
    finally show ?thesis .
  qed
  have ov: "o_reg d = Fin (A * k)"
  proof -
    have "o_reg d = Fin (\<Sum>(a, v) \<leftarrow> ?hist. weight pc M a * v d)"
      using inv M by (simp add: rel_to_max_def)
    also have "(\<Sum>(a, v) \<leftarrow> ?hist. weight pc M a * v d)
                 = (\<Sum>j \<leftarrow> [0..L - 1]. weight pc M (?a j) * Vr j d)"
      by (simp add: comp_def)
    also have "\<dots> = A * k" by (simp only: cut map_append sum_list_append a1 a2 add_0_right)
    finally show ?thesis .
  qed
  have "[0..n - 1] \<noteq> []" using n by simp
  then have S: "0 < S" unfolding S_def by (rule sum_list_pos_real) simp
  have "fl_div (o_reg d) nv = Fin (A * k / (S * k))"
    using S k by (simp add: nv ov)
  also have "A * k / (S * k) = A / S" using k by simp
  finally show ?thesis by (simp add: softmax_over_def A_def S_def)
qed

lemma mm_ABt_entry_Fin:
  "mm_ABt_entry D (fin_row q) (fin_row k) = Fin (\<Sum>e < D. q e * k e)"
proof -
  have "fold (\<lambda>d acc. fl_add acc (fl_mul (fin_row q d) (fin_row k d))) [0..<D] (Fin 0)
        = fold (\<lambda>x acc. fl_add acc x) (map Fin (map (\<lambda>e. q e * k e) [0..<D])) (Fin 0)"
    by (simp add: fold_map comp_def fin_row_def)
  also have "\<dots> = Fin (0 + sum_list (map (\<lambda>e. q e * k e) [0..<D]))" by (rule fold_add_Fin)
  also have "sum_list (map (\<lambda>e. q e * k e) [0..<D]) = (\<Sum>e < D. q e * k e)"
    by (simp add: interv_sum_list_conv_sum_set_nat lessThan_atLeast0)
  finally show ?thesis by (simp add: mm_ABt_entry_def)
qed

lemma softmax_scale_pos: "0 < softmax_scale D"
  by (simp add: softmax_scale_def)

lemma consumer_row_closed:
  assumes kvh: "kv_height K = 128 \<or> kv_height K = 64"
      and T: "T = consumer_kv_iters (k_is_causal l) K (k_CONSUMER_WARPGROUPS l)
                    (seq_idx c (k_CONSUMER_WARPGROUPS l)) (g_N l)"
      and T0: "0 \<le> T"
      and mask: "\<And>t k xs. 0 \<le> t \<Longrightarrow> t \<le> T \<Longrightarrow> length xs = nat (kv_height K) \<Longrightarrow> k < length xs \<Longrightarrow>
                  apply_mask (k_is_causal l) K (g_N l) (seq_idx c (k_CONSUMER_WARPGROUPS l))
                    warpid rr T t xs ! k
                  = (if n \<le> t * kv_height K + int k then MInf else xs ! k)"
      and n: "1 \<le> n" "n \<le> (T + 1) * kv_height K"
      and Q: "Q (blockIdx_z c) (blockIdx_y c)
                (query_row K (seq_idx c (k_CONSUMER_WARPGROUPS l)) warpid rr) = fin_row q"
      and Kr: "\<And>j. 0 \<le> j \<Longrightarrow> j < n \<Longrightarrow>
                 Kt (blockIdx_z c) (kv_head_idx c (g_hr l)) j = fin_row (Kr j)"
      and Vr: "\<And>j. 0 \<le> j \<Longrightarrow> j < (T + 1) * kv_height K \<Longrightarrow>
                 V (blockIdx_z c) (kv_head_idx c (g_hr l)) j = fin_row (Vr j)"
      and sc: "is_fp8 \<Longrightarrow> scale_q (scale_q_index c) = Fin sq \<and> scale_k (scale_k_index c) = Fin sk"
      and f: "f = (if is_fp8 then sq * sk * softmax_scale (k_D l) else softmax_scale (k_D l))"
  shows "consumer_row is_fp8 K l c warpid rr Q Kt V scale_q scale_k d
          = Fin (softmax_over (\<lambda>j. (\<Sum>e < nat (tile_width K). q e * Kr j e) * f) Vr n d)"
proof -
  define H where "H = nat (kv_height K)"
  have H: "0 < H" and iH: "int H = kv_height K" using kvh by (auto simp: H_def)
  have kp: "0 < kv_height K" using kvh by auto
  define CW where "CW = k_CONSUMER_WARPGROUPS l"
  define c0 where "c0 = softmax_scale (k_D l)"
  have c0: "0 < c0" unfolding c0_def by (rule softmax_scale_pos)
  define pc where "pc = (if is_fp8 then 1 else c0)"
  define scale where
    "scale = fl_mul (fl_mul (scale_q (scale_q_index c)) (scale_k (scale_k_index c))) (Fin c0)"
  define dot where "dot = (\<lambda>j. \<Sum>e < nat (tile_width K). q e * Kr j e)"
  define x where "x = (\<lambda>j. if is_fp8 then dot j * (sq * sk * c0) else dot j)"
  define a where "a = (\<lambda>j. if n \<le> j then MInf else Fin (x j))"
  define Kmem where "Kmem = Kt (blockIdx_z c) (kv_head_idx c (g_hr l))"
  define Vmem where "Vmem = V (blockIdx_z c) (kv_head_idx c (g_hr l))"
  define raw where "raw = (\<lambda>t. score_row (nat (tile_width K)) (fin_row q) Kmem K t)"
  define vt where "vt = (\<lambda>t. v_tile Vmem K t)"
  define msk where
    "msk = (\<lambda>t. apply_mask (k_is_causal l) K (g_N l) (seq_idx c CW) warpid rr T t)"
  have att: "(if is_fp8 then msk t (map (\<lambda>a. fl_mul a scale) (raw t)) else msk t (raw t))
               = map (\<lambda>k. a (t * int H + int k)) [0..<H]" if t: "0 \<le> t" "t \<le> T" for t
  proof -
    define xs where "xs = (if is_fp8 then map (\<lambda>a. fl_mul a scale) (raw t) else raw t)"
    have len: "length xs = nat (kv_height K)"
      by (simp add: xs_def raw_def length_score_row)
    have "msk t xs = map (\<lambda>k. a (t * int H + int k)) [0..<H]"
    proof (rule nth_equalityI)
      show "length (msk t xs) = length (map (\<lambda>k. a (t * int H + int k)) [0..<H])"
        by (simp add: msk_def length_apply_mask len H_def)
    next
      fix k assume "k < length (msk t xs)"
      then have k: "k < length xs" by (simp add: msk_def length_apply_mask)
      then have kH: "k < H" "k < nat (kv_height K)" using len by (simp_all add: H_def)
      have m: "msk t xs ! k = (if n \<le> t * kv_height K + int k then MInf else xs ! k)"
        unfolding msk_def CW_def by (rule mask [OF t len k])
      have e: "xs ! k = Fin (x (t * kv_height K + int k))" if "\<not> n \<le> t * kv_height K + int k"
      proof -
        have p: "0 \<le> t * kv_height K + int k" using t(1) kp by simp
        have r: "raw t ! k = Fin (dot (t * kv_height K + int k))"
          using that p kH(2)
          by (simp add: raw_def score_row_nth Kmem_def Kr mm_ABt_entry_Fin dot_def)
        show ?thesis
        proof (cases is_fp8)
          case True
          then have "scale = Fin (sq * sk * c0)" using sc by (simp add: scale_def)
          then show ?thesis using True r k len by (simp add: xs_def x_def raw_def)
        next
          case False
          then show ?thesis using r by (simp add: xs_def x_def)
        qed
      qed
      show "msk t xs ! k = map (\<lambda>k. a (t * int H + int k)) [0..<H] ! k"
        using kH(1) m e by (simp add: a_def iH)
    qed
    then show ?thesis by (cases is_fp8) (simp_all add: xs_def)
  qed
  have vt: "vt t = map (\<lambda>k. fin_row (Vr (t * int H + int k))) [0..<H]"
    if t: "0 \<le> t" "t \<le> T" for t
  proof -
    have "Vmem (t * kv_height K + int k) = fin_row (Vr (t * kv_height K + int k))"
      if "k < H" for k
    proof -
      have "t * kv_height K \<le> T * kv_height K" using t(2) kp by (simp add: mult_right_mono)
      moreover have "int k < kv_height K" using that iH by simp
      moreover have "(T + 1) * kv_height K = T * kv_height K + kv_height K"
        by (simp add: algebra_simps)
      ultimately have "t * kv_height K + int k < (T + 1) * kv_height K" by linarith
      moreover have "0 \<le> t * kv_height K + int k" using t(1) kp by simp
      ultimately show ?thesis unfolding Vmem_def by (intro Vr)
    qed
    then show ?thesis by (simp add: vt_def v_tile_def H_def [symmetric] iH)
  qed
  have nb: "a j \<noteq> Bad" for j by (simp add: a_def)
  have a0: "a 0 \<noteq> MInf" using n(1) by (simp add: a_def)
  define m where "m = nat (T + 1)"
  have m: "int m \<le> T + 1" "int m - 1 = T" using T0 by (simp_all add: m_def)
  have L: "int m * int H = (T + 1) * kv_height K"
    using m(2) by (simp add: iH algebra_simps)
  define st where "st = fold (\<lambda>t st. consumer_iter is_fp8 c0 scale (msk t) st (raw t) (vt t))
              [0..T] (MInf, Fin 0, \<lambda>d. Fin 0)"
  obtain mx nv o_reg where st3: "st = (mx, nv, o_reg)" by (cases st) auto
  have "rel_to_max pc (map (\<lambda>j. (a j, Vr j)) [0..int m * int H - 1])
           (fold (\<lambda>t st. consumer_iter is_fp8 c0 scale (msk t) st (raw t) (vt t))
              [0..int m - 1] (MInf, Fin 0, \<lambda>d. Fin 0))"
    by (rule consumer_loop_rel [OF c0 pc_def att vt nb a0 H m(1)])
  then have inv: "rel_to_max pc
      (map (\<lambda>j. (if n \<le> j then MInf else Fin (x j), Vr j)) [0..(T + 1) * kv_height K - 1])
      (mx, nv, o_reg)"
    by (simp only: m(2) L st_def [symmetric] st3 a_def)
  have r: "fl_div (o_reg d) nv = Fin (softmax_over (\<lambda>j. x j * pc) Vr n d)"
    by (rule rel_closed_form [OF inv n])
  have xf: "(\<lambda>j. x j * pc) = (\<lambda>j. (\<Sum>e < nat (tile_width K). q e * Kr j e) * f)"
    by (rule ext) (simp add: x_def pc_def f dot_def c0_def)
  have cr: "consumer_row is_fp8 K l c warpid rr Q Kt V scale_q scale_k d
              = fl_div (snd (snd st) d) (fst (snd st))"
    by (simp add: consumer_row_def Let_def Q st_def T CW_def c0_def scale_def msk_def
          raw_def vt_def Kmem_def Vmem_def split_beta)
  show ?thesis using r by (simp add: cr st3 xf)
qed

lemma noncausal_row_closed:
  assumes l: "l \<in> set (dispatch D False seq_q N qo_heads batch hr)"
      and K: "fwd_attend_ker_tile_dims D = Some K"
      and N: "1 \<le> N"
      and Q: "Q (blockIdx_z c) (blockIdx_y c)
                (query_row K (seq_idx c (k_CONSUMER_WARPGROUPS l)) warpid rr) = fin_row q"
      and Kr: "\<And>j. 0 \<le> j \<Longrightarrow> j < N \<Longrightarrow>
                 Kt (blockIdx_z c) (kv_head_idx c (g_hr l)) j = fin_row (Kr j)"
      and Vr: "\<And>j. 0 \<le> j \<Longrightarrow> j < kv_blocks K N * kv_height K \<Longrightarrow>
                 V (blockIdx_z c) (kv_head_idx c (g_hr l)) j = fin_row (Vr j)"
      and sc: "is_fp8 \<Longrightarrow> scale_q (scale_q_index c) = Fin sq \<and> scale_k (scale_k_index c) = Fin sk"
      and f: "f = (if is_fp8 then sq * sk * softmax_scale D else softmax_scale D)"
  shows "consumer_row is_fp8 K l c warpid rr Q Kt V scale_q scale_k d
          = Fin (softmax_over (\<lambda>j. (\<Sum>e < nat (tile_width K). q e * Kr j e) * f) Vr N d)"
proof -
  from dispatch_cases [OF l]
  have sel: "k_is_causal l = False" "g_N l = N" "k_D l = D"
    by (auto simp: launch_for_sel)
  from tile_dims_cases [OF K]
  have kvh: "kv_height K = 128 \<or> kv_height K = 64" by auto
  have kp: "0 < kv_height K" using kvh by auto
  have N0: "0 \<le> N" using N by simp
  define CW where "CW = k_CONSUMER_WARPGROUPS l"
  define T where "T = consumer_kv_iters False K CW (seq_idx c CW) N"
  have T: "T = kv_blocks K N - 1" by (simp add: T_def consumer_kv_iters_def)
  note kb = kv_blocks_bounds [OF N0 kp]
  have T0: "0 \<le> T"
  proof -
    have "0 < kv_blocks K N * kv_height K" using kb(2) N by linarith
    then have "0 < kv_blocks K N" using kp by (simp add: zero_less_mult_iff)
    then show ?thesis using T by simp
  qed
  have T': "T = consumer_kv_iters (k_is_causal l) K (k_CONSUMER_WARPGROUPS l)
                    (seq_idx c (k_CONSUMER_WARPGROUPS l)) (g_N l)"
    by (simp add: T_def sel CW_def)
  have L: "(T + 1) * kv_height K = kv_blocks K N * kv_height K" by (simp add: T)
  have mask: "apply_mask (k_is_causal l) K (g_N l) (seq_idx c (k_CONSUMER_WARPGROUPS l))
                    warpid rr T t xs ! k
                  = (if N \<le> t * kv_height K + int k then MInf else xs ! k)"
    if "0 \<le> t" "t \<le> T" "length xs = nat (kv_height K)" "k < length xs" for t k xs
    unfolding sel T_def CW_def
    by (rule noncausal_mask_nth(1) [OF K N0 that(3) that(1) that(2) [unfolded T_def CW_def]
          that(4)])
  show ?thesis
  proof (rule consumer_row_closed [where Q = Q and q = q and Kt = Kt and Kr = Kr
        and V = V and Vr = Vr and scale_q = scale_q and scale_k = scale_k and sq = sq
        and sk = sk and T = T and c = c and l = l and K = K and warpid = warpid and rr = rr
        and n = N, OF kvh T' T0 mask N _ Q Kr _ sc])
    show "N \<le> (T + 1) * kv_height K" using kb(2) by (simp only: L)
    show "V (blockIdx_z c) (kv_head_idx c (g_hr l)) j = fin_row (Vr j)"
      if "0 \<le> j" "j < (T + 1) * kv_height K" for j
      using that(2) by (intro Vr that(1)) (simp only: L)
    show "f = (if is_fp8 then sq * sk * softmax_scale (k_D l) else softmax_scale (k_D l))"
      using f sel by simp
  qed
qed

lemma causal_row_closed:
  assumes l: "l \<in> set (dispatch D True seq_q N qo_heads batch hr)"
      and K: "fwd_attend_ker_tile_dims D = Some K"
      and x: "0 \<le> blockIdx_x c"
      and w: "0 \<le> warpid" "warpid < k_CONSUMER_WARPGROUPS l * WARPGROUP_WARPS"
      and rr: "0 \<le> rr" "rr < TILE_ROW_DIM"
      and i: "i = query_row K (seq_idx c (k_CONSUMER_WARPGROUPS l)) warpid rr"
      and T: "T = consumer_kv_iters True K (k_CONSUMER_WARPGROUPS l)
                    (seq_idx c (k_CONSUMER_WARPGROUPS l)) N"
      and Q: "Q (blockIdx_z c) (blockIdx_y c) i = fin_row q"
      and Kr: "\<And>j. 0 \<le> j \<Longrightarrow> j \<le> i \<Longrightarrow>
                 Kt (blockIdx_z c) (kv_head_idx c (g_hr l)) j = fin_row (Kr j)"
      and Vr: "\<And>j. 0 \<le> j \<Longrightarrow> j < (T + 1) * kv_height K \<Longrightarrow>
                 V (blockIdx_z c) (kv_head_idx c (g_hr l)) j = fin_row (Vr j)"
      and sc: "is_fp8 \<Longrightarrow> scale_q (scale_q_index c) = Fin sq \<and> scale_k (scale_k_index c) = Fin sk"
      and f: "f = (if is_fp8 then sq * sk * softmax_scale D else softmax_scale D)"
  shows "consumer_row is_fp8 K l c warpid rr Q Kt V scale_q scale_k d
          = Fin (softmax_over (\<lambda>j. (\<Sum>e < nat (tile_width K). q e * Kr j e) * f) Vr (i + 1) d)"
proof -
  let ?CW = "k_CONSUMER_WARPGROUPS l"
  let ?x = "blockIdx_x c"
  from dispatch_cases [OF l] tile_dims_cases [OF K]
  obtain wd kvh where
    Kd: "K = \<lparr>tile_width = wd, qo_height = 64, kv_height = kvh, stages = 2\<rparr>"
    and cfg: "(kvh = 128 \<and> ?CW = 3) \<or> (kvh = 64 \<and> ?CW = 2)"
    and sel: "k_is_causal l" "g_N l = N" "k_D l = D"
    by (elim disjE conjE; simp add: launch_for_sel)
  have kvh: "kv_height K = 128 \<or> kv_height K = 64" using cfg Kd by auto
  have kh: "kv_height K = kvh" by (simp add: Kd)
  have rr16: "rr < 16" using rr(2) by (simp add: TILE_ROW_DIM_def)
  have w4: "warpid < ?CW * 4" using w(2) by (simp add: WARPGROUP_WARPS_def)
  have sidx: "seq_idx c ?CW = ?x * ?CW" by (simp add: seq_idx_def)
  have iq: "i = ?x * ?CW * 64 + warpid * 16 + rr"
    unfolding i sidx Kd by (rule query_row_eq [OF w(1)])
  have i0: "0 \<le> i" using iq x w(1) rr(1) cfg by auto
  have T': "T = consumer_kv_iters (k_is_causal l) K ?CW (seq_idx c ?CW) (g_N l)"
    by (simp add: T sel)
  have Tv: "T = (?x * ?CW * 64 + ?CW * 64 - 1) div kvh"
  proof -
    have "0 \<le> ?x * ?CW * 64 - 1 + ?CW * 64" using x cfg by auto
    moreover have "0 < kvh" using cfg by auto
    ultimately show ?thesis
      by (simp add: T consumer_kv_iters_def Kd sidx sdiv_nonneg algebra_simps)
  qed
  have last: "i \<le> ?x * ?CW * 64 + ?CW * 64 - 1" using iq w4 rr16 by linarith
  have kp: "0 < kvh" using cfg by auto
  have "?x * ?CW * 64 + ?CW * 64 - 1 < T * kvh + kvh"
    unfolding Tv using kp by (rule lt_div_mult_int)
  then have n2: "i + 1 \<le> (T + 1) * kv_height K"
    using last by (simp add: kh algebra_simps)
  have T0: "0 \<le> T"
  proof -
    have "0 \<le> ?x * ?CW * 64 + ?CW * 64 - 1" using x cfg by auto
    then show ?thesis unfolding Tv using kp by (simp add: pos_imp_zdiv_nonneg_iff)
  qed
  have mask: "apply_mask (k_is_causal l) K (g_N l) (seq_idx c ?CW) warpid rr T t xs ! k
                  = (if i + 1 \<le> t * kv_height K + int k then MInf else xs ! k)"
    if "0 \<le> t" "t \<le> T" "length xs = nat (kv_height K)" "k < length xs" for t k xs
  proof -
    have "apply_mask True K N (?x * ?CW) warpid rr
            (consumer_kv_iters True K ?CW (?x * ?CW) N) t xs ! k
          = (if query_row K (?x * ?CW) warpid rr < t * kvh + int k then MInf else xs ! k)"
      by (rule causal_tile_nth [OF cfg x w(1) rr(1) rr16 Kd])
         (use that T sidx kh in simp_all)
    then show ?thesis using sel T sidx i kh by (simp add: zle_add1_eq_le)
  qed
  show ?thesis
  proof (rule consumer_row_closed [where Q = Q and q = q and Kt = Kt and Kr = Kr
        and V = V and Vr = Vr and scale_q = scale_q and scale_k = scale_k and sq = sq
        and sk = sk and T = T and c = c and l = l and K = K and warpid = warpid and rr = rr
        and n = "i + 1", OF kvh T' T0 mask _ n2 _ _ Vr sc])
    show "1 \<le> i + 1" using i0 by simp
    show "Q (blockIdx_z c) (blockIdx_y c) (query_row K (seq_idx c ?CW) warpid rr) = fin_row q"
      using Q i by simp
    show "Kt (blockIdx_z c) (kv_head_idx c (g_hr l)) j = fin_row (Kr j)"
      if "0 \<le> j" "j < i + 1" for j
      using that Kr by simp
    show "f = (if is_fp8 then sq * sk * softmax_scale (k_D l) else softmax_scale (k_D l))"
      using f sel by simp
  qed
qed

section \<open>Sequence lengths that are not a multiple of the tile height\<close>

text \<open>
  Claim C7. In non-causal mode, for every iteration of the consumer loop and every column
  of the score row, the entry is set to \<open>-\<infinity>\<close> exactly when its key position
  \<open>kv_idx * kv_height + c\<close> is at or past \<open>N\<close>, and is otherwise left as it is. Such a
  position exists only in the last iteration and only when \<open>N\<close> is not a multiple of the
  tile height; when it is a multiple the masking changes nothing in any iteration. A
  masked score has weight \<open>exp2(-\<infinity> - m) = 0\<close> against a finite row maximum \<open>m\<close>, in either
  build. And the positions at or past \<open>N\<close> have no part in what the kernel computes: for
  a launched kernel with \<open>N \<ge> 1\<close>, a row of Q and rows \<open>0, \<dots>, N - 1\<close> of K that hold finite
  values, rows of V that hold finite values in all the loaded tiles (past \<open>N\<close> in the last
  tile they are what the tile load delivers there) and, in the fp8 build, finite scale
  factors, the output row of the consumer is the softmax over the positions
  \<open>0, \<dots>, N - 1\<close> alone, with the weight \<open>exp2(f * q \<cdot> k\<^sub>j)\<close> for position \<open>j\<close>, where \<open>f\<close> is
  \<open>softmax_scale D\<close>, times the two scale factors in the fp8 build. Nothing is assumed
  about the rows of K at or past \<open>N\<close>.
\<close>

theorem noncausal_mask_zero_weight:
  assumes "fwd_attend_ker_tile_dims D = Some K" and "0 \<le> N"
      and "length att = nat (kv_height K)"
      and "0 \<le> kv_idx" and "kv_idx \<le> consumer_kv_iters False K CW sidx N"
      and "c < length att"
  shows "apply_mask False K N sidx warpid rr (consumer_kv_iters False K CW sidx N) kv_idx att ! c
           = (if N \<le> kv_idx * kv_height K + int c then MInf else att ! c)
       \<and> (N \<le> kv_idx * kv_height K + int c \<longrightarrow>
            kv_idx = consumer_kv_iters False K CW sidx N \<and> N smod kv_height K \<noteq> 0)
       \<and> (N smod kv_height K = 0 \<longrightarrow>
            apply_mask False K N sidx warpid rr (consumer_kv_iters False K CW sidx N) kv_idx att
              = att)
       \<and> fl_exp2 (fl_sub (fl_mul MInf (Fin (softmax_scale D))) (Fin m)) = Fin 0
       \<and> fl_exp2 (fl_sub MInf (Fin m)) = Fin 0
       \<and> (l \<in> set (dispatch D False seq_q N qo_heads batch hr) \<and> 1 \<le> N
            \<and> Q (blockIdx_z cell) (blockIdx_y cell)
                 (query_row K (seq_idx cell (k_CONSUMER_WARPGROUPS l)) warpid rr) = fin_row q
            \<and> (\<forall>j. 0 \<le> j \<and> j < N \<longrightarrow>
                  Kt (blockIdx_z cell) (kv_head_idx cell (g_hr l)) j = fin_row (Kr j))
            \<and> (\<forall>j. 0 \<le> j \<and> j < kv_blocks K N * kv_height K \<longrightarrow>
                  V (blockIdx_z cell) (kv_head_idx cell (g_hr l)) j = fin_row (Vr j))
            \<and> (is_fp8 \<longrightarrow> scale_q (scale_q_index cell) = Fin sq
                          \<and> scale_k (scale_k_index cell) = Fin sk)
          \<longrightarrow> consumer_row is_fp8 K l cell warpid rr Q Kt V scale_q scale_k d
                = Fin (softmax_over
                    (\<lambda>j. (\<Sum>e < nat (tile_width K). q e * Kr j e)
                           * (if is_fp8 then sq * sk * softmax_scale D else softmax_scale D))
                    Vr N d))"
proof -
  from tile_dims_cases [OF assms(1)]
  have D: "D = 64 \<or> D = 128 \<or> D = 256" by auto
  note 1 = noncausal_mask_nth(1) [OF assms, where warpid = warpid and rr = rr]
  note 2 = noncausal_mask_nth(2) [OF assms]
  have 3: "N smod kv_height K = 0 \<longrightarrow>
            apply_mask False K N sidx warpid rr (consumer_kv_iters False K CW sidx N) kv_idx att
              = att"
    by (simp add: apply_mask_def)
  have 4: "fl_exp2 (fl_sub (fl_mul MInf (Fin (softmax_scale D))) (Fin m)) = Fin 0"
    using D by (auto simp: softmax_scale_def)
  have 5: "fl_exp2 (fl_sub MInf (Fin m)) = Fin 0" by simp
  have 6: "consumer_row is_fp8 K l cell warpid rr Q Kt V scale_q scale_k d
                = Fin (softmax_over
                    (\<lambda>j. (\<Sum>e < nat (tile_width K). q e * Kr j e)
                           * (if is_fp8 then sq * sk * softmax_scale D else softmax_scale D))
                    Vr N d)"
    if "l \<in> set (dispatch D False seq_q N qo_heads batch hr)" "1 \<le> N"
       "Q (blockIdx_z cell) (blockIdx_y cell)
          (query_row K (seq_idx cell (k_CONSUMER_WARPGROUPS l)) warpid rr) = fin_row q"
       "\<forall>j. 0 \<le> j \<and> j < N \<longrightarrow>
            Kt (blockIdx_z cell) (kv_head_idx cell (g_hr l)) j = fin_row (Kr j)"
       "\<forall>j. 0 \<le> j \<and> j < kv_blocks K N * kv_height K \<longrightarrow>
            V (blockIdx_z cell) (kv_head_idx cell (g_hr l)) j = fin_row (Vr j)"
       "is_fp8 \<longrightarrow> scale_q (scale_q_index cell) = Fin sq \<and> scale_k (scale_k_index cell) = Fin sk"
    by (rule noncausal_row_closed [where Q = Q and q = q and c = cell and sq = sq and sk = sk
          and Kr = Kr and Vr = Vr and seq_q = seq_q and qo_heads = qo_heads and batch = batch
          and hr = hr and D = D])
       (use that assms(1) in simp_all)
  show ?thesis using 1 2 3 4 5 6 by blast
qed

text \<open>
  The theorem at \<open>D = 256\<close>, \<open>N = 70\<close>, the 16-bit build: two key tiles of height 64, column 6
  of the second one is position 70 and is masked; with Q zero all scores are equal, the
  rows of V are 2 up to position 69 and 7 from position 70 on, and the output is 2.
\<close>

theorem noncausal_mask_zero_weight_witness:
  "apply_mask False \<lparr>tile_width = 256, qo_height = 64, kv_height = 64, stages = 2\<rparr>
        70 0 0 0
        (consumer_kv_iters False
           \<lparr>tile_width = 256, qo_height = 64, kv_height = 64, stages = 2\<rparr> 2 0 70)
        1 (replicate 64 (Fin 1)) ! 6 = MInf
   \<and> consumer_row False \<lparr>tile_width = 256, qo_height = 64, kv_height = 64, stages = 2\<rparr>
        (launch_for 256 2 1 False 64 70 1 1 1)
        \<lparr>blockIdx_x = 0, blockIdx_y = 0, blockIdx_z = 0, gridDim_y = 1\<rparr> 0 0
        (\<lambda>b h r d. Fin 0) (\<lambda>b h r d. Fin 1) (\<lambda>b h r d. if r < 70 then Fin 2 else Fin 7)
        (\<lambda>n. Fin 1) (\<lambda>n. Fin 1) 0 = Fin 2"
proof -
  let ?K = "\<lparr>tile_width = 256, qo_height = 64, kv_height = 64, stages = 2\<rparr>"
  let ?l = "launch_for 256 2 1 False 64 70 1 1 1"
  let ?c = "\<lparr>blockIdx_x = 0, blockIdx_y = 0, blockIdx_z = 0, gridDim_y = 1\<rparr>"
  let ?Vr = "\<lambda>(j::int) (d::nat). if j < 70 then 2 else (7::real)"
  have h1: "fwd_attend_ker_tile_dims 256 = Some ?K"
    by (simp add: fwd_attend_ker_tile_dims_def)
  have h2: "(0::int) \<le> 70" by simp
  have h3: "length (replicate 64 (Fin 1)) = nat (kv_height ?K)" by simp
  have h4: "(0::int) \<le> 1" by simp
  have h5: "(1::int) \<le> consumer_kv_iters False ?K 2 0 70"
    by (simp add: consumer_kv_iters_def kv_blocks_def signed_divide_int_def)
  have h6: "(6::nat) < length (replicate 64 (Fin 1))" by simp
  note t = noncausal_mask_zero_weight [OF h1 h2 h3 h4 h5 h6, where warpid = 0 and rr = 0
      and l = ?l and seq_q = 64 and qo_heads = 1 and batch = 1 and hr = 1 and cell = ?c
      and Q = "\<lambda>b h r d. Fin 0" and q = "\<lambda>d. 0" and Kt = "\<lambda>b h r d. Fin 1" and Kr = "\<lambda>j d. 1"
      and V = "\<lambda>b h r d. if r < 70 then Fin 2 else Fin 7" and Vr = ?Vr
      and ?is_fp8.0 = False and scale_q = "\<lambda>n. Fin 1" and scale_k = "\<lambda>n. Fin 1" and d = 0]
  have g: "apply_mask False ?K 70 0 0 0 (consumer_kv_iters False ?K 2 0 70) 1
             (replicate 64 (Fin 1)) ! 6 = MInf"
    using t [THEN conjunct1] by simp
  have b1: "?l \<in> set (dispatch 256 False 64 70 1 1 1)" by (simp add: dispatch_def)
  have b2: "(\<lambda>d. Fin 0) = fin_row (\<lambda>d. 0)" "(\<lambda>d. Fin 1) = fin_row (\<lambda>d. 1)"
    "(\<lambda>d::nat. if j < 70 then Fin 2 else Fin 7) = fin_row (?Vr j)" for j :: int
    by (auto simp: fin_row_def)
  have s: "softmax_over (\<lambda>j. (\<Sum>e < nat (tile_width ?K). 0 * 1) * softmax_scale 256) ?Vr 70 0 = 2"
  proof -
    have e: "map (\<lambda>j. 2 powr 0 * ?Vr j 0) [0..70 - 1] = map (\<lambda>j. 2) [0..70 - 1]"
      by (rule map_cong [OF refl]) simp
    have "(\<Sum>j \<leftarrow> [0..70 - 1]. 2 powr 0 * ?Vr j 0) = 140"
      unfolding e by (simp add: sum_list_triv)
    moreover have "(\<Sum>j \<leftarrow> [0..(70::int) - 1]. (2::real) powr 0) = 70"
      by (simp add: sum_list_triv)
    ultimately show ?thesis by (simp add: softmax_over_def)
  qed
  have "consumer_row False ?K ?l ?c 0 0 (\<lambda>b h r d. Fin 0) (\<lambda>b h r d. Fin 1)
          (\<lambda>b h r d. if r < 70 then Fin 2 else Fin 7) (\<lambda>n. Fin 1) (\<lambda>n. Fin 1) 0
        = Fin (softmax_over (\<lambda>j. (\<Sum>e < nat (tile_width ?K). 0 * 1) * softmax_scale 256) ?Vr 70 0)"
    using t [THEN conjunct2, THEN conjunct2, THEN conjunct2, THEN conjunct2, THEN conjunct2]
      b1 b2 by simp
  then show ?thesis using g s by simp
qed

section \<open>A row of V past the diagonal that is not finite\<close>

lemma fold_add_from_Bad: "fold (\<lambda>x acc. fl_add acc x) xs Bad = Bad"
  by (induction xs) simp_all

lemma fold_add_Bad: "Bad \<in> set xs \<Longrightarrow> fold (\<lambda>x acc. fl_add acc x) xs a = Bad"
proof (induction xs arbitrary: a)
  case Nil
  then show ?case by simp
next
  case (Cons x xs)
  show ?case
  proof (cases "x = Bad")
    case True
    have "fl_add a Bad = Bad" by (cases a) simp_all
    then show ?thesis using True by (simp add: fold_add_from_Bad)
  next
    case False
    then show ?thesis using Cons by simp
  qed
qed

lemma masked_weight_MInf: "fl_mul (fl_exp2 (fl_sub MInf m)) MInf = Bad"
  by (cases m) simp_all

lemma consumer_iter_v_MInf:
  assumes c: "0 < c"
      and att: "att = (if is_fp8 then msk (map (\<lambda>a. fl_mul a scale) raw) else msk raw)"
      and k: "k < length att" "k < length vt"
      and dead: "att ! k = MInf" and v: "(vt ! k) d = MInf"
  shows "snd (snd (consumer_iter is_fp8 c scale msk (mx, nv, o_reg) raw vt)) d = Bad"
proof -
  define pc where "pc = (if is_fp8 then 1 else c)"
  have pc0: "0 < pc" using c by (simp add: pc_def)
  define M where "M = fl_mul (row_max mx att) (Fin pc)"
  define P where "P = map fl_exp2 (map (\<lambda>a. fl_sub a M) (map (\<lambda>a. fl_mul a (Fin pc)) att))"
  define o1 where "o1 = (\<lambda>d. fl_mul (o_reg d) (fl_exp2 (fl_sub (fl_mul mx (Fin pc)) M)))"
  have u: "snd (snd (consumer_iter is_fp8 c scale msk (mx, nv, o_reg) raw vt)) = mma_AB o1 P vt"
    by (simp add: consumer_iter_unfold [OF att pc_def] rescale_accumulate_def Let_def
          P_def o1_def M_def)
  have kz: "k < length (zip P vt)" using k by (simp add: P_def)
  have "map (\<lambda>(pc, v). fl_mul pc (v d)) (zip P vt) ! k = fl_mul (P ! k) ((vt ! k) d)"
    using kz by simp
  also have "\<dots> = Bad"
    using k(1) pc0 by (simp add: P_def dead v masked_weight_MInf)
  finally have "Bad \<in> set (map (\<lambda>(pc, v). fl_mul pc (v d)) (zip P vt))"
    using kz by (metis length_map nth_mem)
  then show ?thesis by (simp only: u mma_AB_fold fold_add_Bad)
qed

lemma consumer_iter_o_Bad:
  assumes "o_reg d = Bad"
  shows "snd (snd (consumer_iter is_fp8 c scale msk (mx, nv, o_reg) raw vt)) d = Bad"
proof -
  have "mma_AB (\<lambda>d. fl_mul (o_reg d) r) P vt d = Bad" for r P
    by (simp add: mma_AB_fold assms fold_add_from_Bad)
  then show ?thesis
    by (cases is_fp8) (simp_all add: consumer_iter_def rescale_accumulate_def Let_def)
qed

text \<open>
  Claim C4 says that in causal mode two inputs that agree on Q and on the rows
  \<open>0, \<dots>, i\<close> of K and V give the same output row \<open>i\<close>. Take \<open>D = 64\<close>, sequences of length
  192, the 16-bit build, Q all ones, K all zeros, and the query row 0 of the first cell.
  With V all ones the output is 1. With V' equal to V except for \<open>-\<infinity>\<close> in row 1 the output
  is not a number: the score of position 1 is masked and its weight is 0, and the tile
  product multiplies this weight with row 1 of V'.
\<close>

theorem causal_output_depends_on_later_v:
  "query_row \<lparr>tile_width = 64, qo_height = 64, kv_height = 128, stages = 2\<rparr>
     (seq_idx \<lparr>blockIdx_x = 0, blockIdx_y = 0, blockIdx_z = 0, gridDim_y = 1\<rparr>
        (k_CONSUMER_WARPGROUPS (launch_for 64 3 1 True 192 192 1 1 1))) 0 0 = 0
   \<and> consumer_row False \<lparr>tile_width = 64, qo_height = 64, kv_height = 128, stages = 2\<rparr>
       (launch_for 64 3 1 True 192 192 1 1 1)
       \<lparr>blockIdx_x = 0, blockIdx_y = 0, blockIdx_z = 0, gridDim_y = 1\<rparr> 0 0
       (\<lambda>b h r d. Fin 1) (\<lambda>b h r d. Fin 0) (\<lambda>b h r d. Fin 1)
       (\<lambda>n. Fin 1) (\<lambda>n. Fin 1) 0 = Fin 1
   \<and> consumer_row False \<lparr>tile_width = 64, qo_height = 64, kv_height = 128, stages = 2\<rparr>
       (launch_for 64 3 1 True 192 192 1 1 1)
       \<lparr>blockIdx_x = 0, blockIdx_y = 0, blockIdx_z = 0, gridDim_y = 1\<rparr> 0 0
       (\<lambda>b h r d. Fin 1) (\<lambda>b h r d. Fin 0) (\<lambda>b h r d. if r = 1 then MInf else Fin 1)
       (\<lambda>n. Fin 1) (\<lambda>n. Fin 1) 0 = Bad"
proof -
  let ?K = "\<lparr>tile_width = 64, qo_height = 64, kv_height = 128, stages = 2\<rparr>"
  let ?l = "launch_for 64 3 1 True 192 192 1 1 1"
  let ?c = "\<lparr>blockIdx_x = 0, blockIdx_y = 0, blockIdx_z = 0, gridDim_y = 1\<rparr>"
  let ?V' = "\<lambda>(b::int) (h::int) (r::int) (d::nat). if r = 1 then MInf else Fin 1"
  have sel: "k_CONSUMER_WARPGROUPS ?l = 3" "k_is_causal ?l = True" "g_N ?l = 192"
    "g_hr ?l = 1" "k_D ?l = 64"
    by (simp_all add: launch_for_sel)
  have sidx: "seq_idx ?c 3 = 0" by (simp add: seq_idx_def)
  have qr: "query_row ?K 0 0 0 = 0" by (simp add: query_row_def)
  have T: "consumer_kv_iters True ?K 3 0 192 = 1"
    by (simp add: consumer_kv_iters_def signed_divide_int_def)
  have 1: "query_row ?K (seq_idx ?c (k_CONSUMER_WARPGROUPS ?l)) 0 0 = 0"
    by (simp add: sel sidx qr)
  have h1: "?l \<in> set (dispatch 64 True 192 192 1 1 1)" by (simp add: dispatch_def)
  have h2: "fwd_attend_ker_tile_dims 64 = Some ?K" by (simp add: fwd_attend_ker_tile_dims_def)
  have 2: "consumer_row False ?K ?l ?c 0 0 (\<lambda>b h r d. Fin 1) (\<lambda>b h r d. Fin 0)
             (\<lambda>b h r d. Fin 1) (\<lambda>n. Fin 1) (\<lambda>n. Fin 1) 0 = Fin 1"
  proof -
    have "consumer_row False ?K ?l ?c 0 0 (\<lambda>b h r d. Fin 1) (\<lambda>b h r d. Fin 0)
             (\<lambda>b h r d. Fin 1) (\<lambda>n. Fin 1) (\<lambda>n. Fin 1) 0
          = Fin (softmax_over (\<lambda>j. (\<Sum>e < nat (tile_width ?K). 1 * 0) * softmax_scale 64)
                   (\<lambda>j d. 1) (0 + 1) 0)"
      by (rule causal_row_closed [where Q = "\<lambda>b h r d. Fin 1" and q = "\<lambda>d. 1"
            and Kt = "\<lambda>b h r d. Fin 0" and Kr = "\<lambda>j d. 0" and V = "\<lambda>b h r d. Fin 1"
            and Vr = "\<lambda>j d. 1" and sq = 1 and sk = 1 and i = 0, OF h1 h2 _ _ _ _ _ _ refl])
         (simp_all add: sel sidx qr fin_row_def WARPGROUP_WARPS_def TILE_ROW_DIM_def)
    then show ?thesis by (simp add: softmax_over_def)
  qed
  have 3: "consumer_row False ?K ?l ?c 0 0 (\<lambda>b h r d. Fin 1) (\<lambda>b h r d. Fin 0) ?V'
             (\<lambda>n. Fin 1) (\<lambda>n. Fin 1) 0 = Bad"
  proof -
    let ?msk = "\<lambda>t. apply_mask True ?K 192 0 0 0 1 t"
    let ?raw = "\<lambda>t. score_row 64 (\<lambda>d. Fin 1) (\<lambda>r d. Fin 0) ?K t"
    let ?vt = "\<lambda>t. v_tile (\<lambda>r d. if r = 1 then MInf else Fin 1) ?K t"
    let ?f = "\<lambda>t st. consumer_iter False (softmax_scale 64)
                (Fin (softmax_scale 64)) (?msk t) st (?raw t) (?vt t)"
    obtain mx nv o_reg where s0: "?f 0 (MInf, Fin 0, \<lambda>d. Fin 0) = (mx, nv, o_reg)"
      by (cases "?f 0 (MInf, Fin 0, \<lambda>d. Fin 0)") auto
    obtain mx' nv' o_reg' where s1: "?f 1 (mx, nv, o_reg) = (mx', nv', o_reg')"
      by (cases "?f 1 (mx, nv, o_reg)") auto
    have m: "?msk 0 (?raw 0) ! Suc 0 = MInf"
    proof -
      have "apply_mask True ?K 192 (0 * 3) 0 0 (consumer_kv_iters True ?K 3 (0 * 3) 192) 0 (?raw 0) ! Suc 0
              = (if query_row ?K (0 * 3) 0 0 < 0 * 128 + int (Suc 0) then MInf
                 else ?raw 0 ! Suc 0)"
        by (rule causal_tile_nth [where kvh = 128 and CW = 3 and wd = 64])
           (simp_all add: T length_score_row)
      then show ?thesis by (simp add: T qr)
    qed
    have "snd (snd (?f 0 (MInf, Fin 0, \<lambda>d. Fin 0))) 0 = Bad"
      by (rule consumer_iter_v_MInf [where k = "Suc 0" and att = "?msk 0 (?raw 0)"])
         (simp_all add: softmax_scale_pos length_apply_mask length_score_row length_v_tile m
            v_tile_nth)
    then have "o_reg 0 = Bad" by (simp add: s0)
    then have "snd (snd (?f 1 (mx, nv, o_reg))) 0 = Bad" by (rule consumer_iter_o_Bad)
    then have b: "o_reg' 0 = Bad" by (simp add: s1)
    have u: "[0..(1::int)] = [0, 1]" by (simp add: upto_rec1)
    have "consumer_row False ?K ?l ?c 0 0 (\<lambda>b h r d. Fin 1) (\<lambda>b h r d. Fin 0) ?V'
             (\<lambda>n. Fin 1) (\<lambda>n. Fin 1) 0 = fl_div (o_reg' 0) nv'"
      by (simp add: consumer_row_def Let_def sel sidx qr T u s0 s1 kv_head_idx_def
            scale_q_index_def scale_k_index_def)
    then show ?thesis by (simp add: b)
  qed
  show ?thesis using 1 2 3 by simp
qed

section \<open>The fp8 build with grouped heads at a concrete input\<close>

lemma c64_pos: "0 < softmax_scale 64" "softmax_scale 64 < 1"
  by (simp_all add: softmax_scale_def)

lemma ex_dot:
  "(\<Sum>e < (64::nat). 1 * (if j = (0::int) \<and> e = 0 then 64 else 0 :: real))
     = (if j = 0 then 64 else 0)"
proof (cases "j = 0")
  case True
  then have "(\<Sum>e < (64::nat). 1 * (if j = 0 \<and> e = 0 then 64 else 0 :: real))
               = (\<Sum>e \<in> {..<64::nat}. if e = 0 then 64 else 0)" by simp
  also have "\<dots> = 64" by (subst sum.delta) simp_all
  finally show ?thesis using True by simp
next
  case False
  then show ?thesis by simp
qed

lemma ex_bound:
  assumes "0 < c" "c < 1"
  shows "1 / (1 + 2 powr (- c)) < (2::real) / 3"
proof -
  have "(2::real) powr (- 1) < 2 powr (- c)" using assms by (intro powr_less_mono) simp_all
  moreover have "(2::real) powr (- 1) = 1 / 2" by (simp add: powr_minus_divide)
  ultimately have "3 / 2 < 1 + 2 powr (- c)" by simp
  then show ?thesis by (simp add: field_simps)
qed

lemma exp8: "(99::real) < exp 8"
proof -
  have "(2::real) \<le> exp 1" using exp_ge_add_one_self [of "1::real"] by simp
  then have "(2::real) ^ 8 \<le> exp 1 ^ 8" by (intro power_mono) simp_all
  moreover have "exp (1::real) ^ 8 = exp 8" using exp_of_nat_mult [of 8 "1::real"] by simp
  ultimately show ?thesis by simp
qed

lemma ex_reference:
  "reference_attention_row 1 64 (\<lambda>d. 1) (\<lambda>j d. if j = 0 \<and> d = 0 then 64 else 0)
     (\<lambda>j d. if j = 0 then 1 else 0) 2 0 = exp 8 / (exp 8 + 1)"
proof -
  have s: "sqrt (real 64) = 8" by (rule real_sqrt_unique) simp_all
  have u: "[0..(2::int) - 1] = [0, 1]" by (simp add: upto_rec1)
  have d0: "(\<Sum>e < (64::nat). 1 * (if (0::int) = 0 \<and> e = 0 then 64 else 0 :: real)) = 64"
  proof -
    have "(\<Sum>e < (64::nat). 1 * (if (0::int) = 0 \<and> e = 0 then 64 else 0 :: real))
            = (\<Sum>e \<in> {..<64::nat}. if e = 0 then 64 else 0)" by simp
    also have "\<dots> = 64" by (subst sum.delta) simp_all
    finally show ?thesis .
  qed
  show ?thesis
    unfolding reference_attention_row_def u s by (simp add: d0)
qed

text \<open>
  Claim C1 asks that the output match the reference attention, for the fp8 build with
  the factor \<open>scale_q[b][h] * scale_k[b][h / hr]\<close> folded into the scores. Take \<open>D = 64\<close>,
  batch 2, 2 query heads, 1 key/value head, one query row and two key rows, non-causal;
  Q all ones, K row 0 with 64 in feature 0 and zeros elsewhere, V row 0 all ones and V
  row 1 all zeros; \<open>scale_q\<close> all 1 and \<open>scale_k = [[1], [1/64]]\<close>. For batch 0 and query
  head 1 the kernel folds in \<open>scale_k[1][0] = 1/64\<close> and computes
  \<open>1 / (1 + exp2(-c))\<close> with \<open>c = softmax_scale 64\<close>, which is below \<open>2/3\<close>; the reference
  with \<open>scale_q[0][1] * scale_k[0][0] = 1\<close> is \<open>exp 8 / (exp 8 + 1)\<close>, above \<open>0.99\<close>.
\<close>

theorem fp8_gqa_output_diverges:
  "consumer_row True \<lparr>tile_width = 64, qo_height = 64, kv_height = 128, stages = 2\<rparr>
     (launch_for 64 3 1 False 1 2 2 2 2)
     (block_of (launch_for 64 3 1 False 1 2 2 2 2) 0 1 0) 0 0
     (\<lambda>b h r d. Fin 1)
     (\<lambda>b h j d. if j = 0 \<and> d = 0 then Fin 64 else Fin 0)
     (\<lambda>b h j d. if j = 0 then Fin 1 else Fin 0)
     (\<lambda>n. Fin 1)
     (\<lambda>n. if n = 0 then Fin 1 else Fin (1 / 64)) 0
   = Fin (1 / (1 + 2 powr (- softmax_scale 64)))
   \<and> 1 / (1 + 2 powr (- softmax_scale 64)) < 2 / 3
   \<and> 99 / 100 <
       reference_attention_row
         ((\<lambda>n. 1) (contiguous_offset2 2 0 1)
            * (\<lambda>n. if n = 0 then 1 else 1 / 64) (contiguous_offset2 1 0 (1 sdiv 2)))
         64 (\<lambda>d. 1) (\<lambda>j d. if j = 0 \<and> d = 0 then 64 else 0)
         (\<lambda>j d. if j = 0 then 1 else 0) 2 0"
proof -
  let ?K = "\<lparr>tile_width = 64, qo_height = 64, kv_height = 128, stages = 2\<rparr>"
  let ?l = "launch_for 64 3 1 False 1 2 2 2 2"
  let ?c = "block_of ?l 0 1 0"
  let ?Kr = "\<lambda>(j::int) (d::nat). if j = 0 \<and> d = 0 then 64 else (0::real)"
  let ?Vr = "\<lambda>(j::int) (d::nat). if j = 0 then 1 else (0::real)"
  have blk: "blockIdx_x ?c = 0" "blockIdx_y ?c = 1" "blockIdx_z ?c = 0" "gridDim_y ?c = 2"
    by (simp_all add: block_of_def launch_for_def Let_def)
  have idx: "scale_k_index ?c = 1" "scale_q_index ?c = 1"
    by (simp_all add: scale_k_index_def scale_q_index_def blk)
  have h1: "?l \<in> set (dispatch 64 False 1 2 2 2 2)" by (simp add: dispatch_def)
  have h2: "fwd_attend_ker_tile_dims 64 = Some ?K" by (simp add: fwd_attend_ker_tile_dims_def)
  have c: "0 < softmax_scale 64" by (rule c64_pos)
  have u: "[0..(2::int) - 1] = [0, 1]" by (simp add: upto_rec1)
  have "consumer_row True ?K ?l ?c 0 0
     (\<lambda>b h r d. Fin 1)
     (\<lambda>b h j d. if j = 0 \<and> d = 0 then Fin 64 else Fin 0)
     (\<lambda>b h j d. if j = 0 then Fin 1 else Fin 0)
     (\<lambda>n. Fin 1)
     (\<lambda>n. if n = 0 then Fin 1 else Fin (1 / 64)) 0
   = Fin (softmax_over
            (\<lambda>j. (\<Sum>e < nat (tile_width ?K). 1 * ?Kr j e) * (1 * (1 / 64) * softmax_scale 64))
            ?Vr 2 0)"
    by (rule noncausal_row_closed [where Q = "\<lambda>b h r d. Fin 1" and q = "\<lambda>d. 1"
          and Kt = "\<lambda>b h j d. if j = 0 \<and> d = 0 then Fin 64 else Fin 0" and Kr = ?Kr
          and V = "\<lambda>b h j d. if j = 0 then Fin 1 else Fin 0" and Vr = ?Vr
          and sq = 1 and sk = "1 / 64", OF h1 h2])
       (auto simp: fin_row_def idx)
  also have "softmax_over
            (\<lambda>j. (\<Sum>e < nat (tile_width ?K). 1 * ?Kr j e) * (1 * (1 / 64) * softmax_scale 64))
            ?Vr 2 0
      = 2 powr softmax_scale 64 / (2 powr softmax_scale 64 + 1)"
    unfolding softmax_over_def u by (simp add: ex_dot)
  also have "\<dots> = 1 / (1 + 2 powr (- softmax_scale 64))"
    by (simp add: powr_minus_divide field_simps)
  finally have 1: "consumer_row True ?K ?l ?c 0 0
     (\<lambda>b h r d. Fin 1)
     (\<lambda>b h j d. if j = 0 \<and> d = 0 then Fin 64 else Fin 0)
     (\<lambda>b h j d. if j = 0 then Fin 1 else Fin 0)
     (\<lambda>n. Fin 1)
     (\<lambda>n. if n = 0 then Fin 1 else Fin (1 / 64)) 0
   = Fin (1 / (1 + 2 powr (- softmax_scale 64)))" .
  have 2: "1 / (1 + 2 powr (- softmax_scale 64)) < 2 / 3"
    by (rule ex_bound) (rule c64_pos)+
  have "exp 8 / (exp 8 + 1) > (99::real) / 100"
    using exp8 by (simp add: field_simps)
  then have 3: "99 / 100 <
       reference_attention_row
         ((\<lambda>n. 1) (contiguous_offset2 2 0 1)
            * (\<lambda>n. if n = 0 then 1 else 1 / 64) (contiguous_offset2 1 0 (1 sdiv 2)))
         64 (\<lambda>d. 1) (\<lambda>j d. if j = 0 \<and> d = 0 then 64 else 0)
         (\<lambda>j d. if j = 0 then 1 else 0) 2 0"
    by (simp add: contiguous_offset2_def signed_divide_int_def ex_reference)
  show ?thesis using 1 2 3 by blast
qed

end
